theory Spec2Isabelle
  imports Main "HOL-Library.Sublist"
begin

section \<open>Configuration objects\<close>

text \<open>
  The merged configuration (\<^verbatim>\<open>CreateConfig\<close>), restricted to the fields that the session
  manager and the host layer read. The logger is an external sink; it is identified by a
  number, and the calls it receives are recorded in the state.
\<close>

record CreateConfig =
  session :: string
  folderNameToken :: string
  autoClose :: int
  logQR :: bool
  logger :: nat

text \<open>
  \<^verbatim>\<open>CreateOptions\<close>: every field is optional. \<open>None\<close> is an absent property.
\<close>

record CreateOptions =
  opt_session :: "string option"
  opt_folderNameToken :: "string option"
  opt_autoClose :: "int option"
  opt_logQR :: "bool option"
  opt_logger :: "nat option"

text \<open>
  The object spread \<^verbatim>\<open>{ ...defaultOptions, ...options }\<close>: a property present in
  \<^verbatim>\<open>options\<close> overrides the default; spreading \<^verbatim>\<open>undefined\<close> adds nothing.
\<close>

definition spread :: "CreateConfig \<Rightarrow> CreateOptions option \<Rightarrow> CreateConfig" where
  "spread d options =
     (case options of
        None \<Rightarrow> d
      | Some o' \<Rightarrow>
          \<lparr> session = (case opt_session o' of None \<Rightarrow> session d | Some v \<Rightarrow> v),
            folderNameToken =
              (case opt_folderNameToken o' of None \<Rightarrow> folderNameToken d | Some v \<Rightarrow> v),
            autoClose = (case opt_autoClose o' of None \<Rightarrow> autoClose d | Some v \<Rightarrow> v),
            logQR = (case opt_logQR o' of None \<Rightarrow> logQR d | Some v \<Rightarrow> v),
            logger = (case opt_logger o' of None \<Rightarrow> logger d | Some v \<Rightarrow> v) \<rparr>)"

text \<open>A full configuration passed where \<^verbatim>\<open>CreateOptions\<close> is expected.\<close>

definition asOptions :: "CreateConfig \<Rightarrow> CreateOptions" where
  "asOptions c =
     \<lparr> opt_session = Some (session c),
       opt_folderNameToken = Some (folderNameToken c),
       opt_autoClose = Some (autoClose c),
       opt_logQR = Some (logQR c),
       opt_logger = Some (logger c) \<rparr>"

section \<open>Session manager (\<^verbatim>\<open>controllers/sessionmanager.ts\<close>)\<close>

text \<open>A session handle as \<^verbatim>\<open>create\<close> returns it, and the values that are thrown.\<close>

datatype Whatsapp = Whatsapp nat

datatype thrown = TypeError | RangeError | Reason string

text \<open>
  \<^verbatim>\<open>String.prototype.replace\<close> with a string pattern: the first occurrence of the
  pattern, wherever it is, is replaced; a string without the pattern is unchanged.
\<close>

fun replace :: "string \<Rightarrow> string \<Rightarrow> string \<Rightarrow> string" where
  "replace [] pat rep = (if pat = [] then rep else [])"
| "replace (c # cs) pat rep =
     (if prefix pat (c # cs) then rep @ drop (length pat) (c # cs)
      else c # replace cs pat rep)"

text \<open>
  What the module takes from Node and from the modules it imports: \<^verbatim>\<open>__dirname\<close>,
  \<^verbatim>\<open>defaultOptions\<close>, \<^verbatim>\<open>path.resolve\<close> and the promisified \<^verbatim>\<open>fs.readdir\<close>, whose
  rejection is \<open>Inl\<close>.
\<close>

record Node_env =
  dirname :: string
  defaultOptions :: CreateConfig
  path_resolve :: "string list \<Rightarrow> string"
  readdir :: "string \<Rightarrow> thrown + string list"

text \<open>
  The session-construction collaborator \<^verbatim>\<open>create\<close> (module \<^verbatim>\<open>initializer\<close>) is
  asynchronous: the promise of the \<open>i\<close>-th call settles with \<open>settlement i\<close>, a rejection
  (\<open>Inl\<close>) or a handle (\<open>Inr\<close>), and \<open>settleOrder\<close> lists the calls in the order in which
  their promises settle. A call that is not listed never settles.
\<close>

record Create_env =
  settlement :: "nat \<Rightarrow> thrown + Whatsapp"
  settleOrder :: "nat list"

text \<open>
  The state the module works on: the heap of configuration objects (an object that is
  mutated and handed to a collaborator is a reference), the module-level \<^verbatim>\<open>sessionArray\<close>,
  and the record of the effects: directories read, \<^verbatim>\<open>logger.error\<close> calls (logger,
  message, error) and \<^verbatim>\<open>create\<close> calls (the reference passed, and the content of that
  object at the moment of the call).

  \<^verbatim>\<open>sessionArray\<close> is a JavaScript \<^verbatim>\<open>Array\<close> that is used as a dictionary: \<open>sessionArray\<close>
  holds the handles stored as its own properties, by key, and \<open>sessionArrayProto\<close> the
  object that an assignment to \<^verbatim>\<open>__proto__\<close> has made its prototype (\<open>None\<close>:
  \<^verbatim>\<open>Array.prototype\<close>).
\<close>

record World =
  heap :: "nat \<rightharpoonup> CreateConfig"
  nextRef :: nat
  sessionArray :: "string \<rightharpoonup> Whatsapp"
  sessionArrayProto :: "Whatsapp option"
  dirsRead :: "string list"
  errorLog :: "(nat \<times> string \<times> thrown) list"
  createCalls :: "(nat \<times> CreateConfig) list"

text \<open>
  \<^verbatim>\<open>getSessionNames\<close>. The result \<open>None\<close> is \<^verbatim>\<open>undefined\<close>: the \<^verbatim>\<open>catch\<close> block logs
  and the function ends without a \<^verbatim>\<open>return\<close>.
\<close>

definition getSessionNames ::
  "Node_env \<Rightarrow> CreateOptions option \<Rightarrow> World \<Rightarrow> string list option \<times> World" where
  "getSessionNames env options w =
     (let mergedOptions = spread (defaultOptions env) options;
          lg = logger mergedOptions;
          dir = path_resolve env
                  [dirname env, ''..'', ''..'', folderNameToken (defaultOptions env)];
          w1 = w\<lparr>dirsRead := dirsRead w @ [dir]\<rparr>
      in case readdir env dir of
           Inr sessions \<Rightarrow> (Some (map (\<lambda>m. replace m ''.data.json'' '''') sessions), w1)
         | Inl e \<Rightarrow>
             (None, w1\<lparr>errorLog := errorLog w1 @ [(lg, ''Error getAllTokens() -> '', e)]\<rparr>))"

text \<open>
  The synchronous part of one \<^verbatim>\<open>map\<close> callback: \<^verbatim>\<open>mergedOptions.session = session\<close>
  writes into the shared object, then \<^verbatim>\<open>create(mergedOptions)\<close> is called with the
  reference; the callback is suspended at its \<^verbatim>\<open>await\<close>.
\<close>

definition callCreate :: "nat \<Rightarrow> string \<Rightarrow> World \<Rightarrow> World" where
  "callCreate r s w =
     (case heap w r of
        None \<Rightarrow> w
      | Some c \<Rightarrow>
          w\<lparr>heap := (heap w)(r \<mapsto> c\<lparr>session := s\<rparr>),
            createCalls := createCalls w @ [(r, c\<lparr>session := s\<rparr>)]\<rparr>)"

fun fanOut :: "nat \<Rightarrow> string list \<Rightarrow> World \<Rightarrow> World" where
  "fanOut r [] w = w"
| "fanOut r (s # ss) w = fanOut r ss (callCreate r s w)"

text \<open>
  The assignment \<^verbatim>\<open>sessionArray[key] = handle\<close> on the array, the handle being an object.
  The key \<^verbatim>\<open>length\<close> is the array's own length: a value that is not a valid length makes
  the assignment throw a \<^verbatim>\<open>RangeError\<close>, and nothing is stored. The key \<^verbatim>\<open>__proto__\<close> is
  the accessor inherited from \<^verbatim>\<open>Object.prototype\<close>: the handle becomes the prototype of
  the array and no own property is created. Every other key, an array index included,
  names an own property that now holds the handle.
\<close>

definition storeSession :: "string \<Rightarrow> Whatsapp \<Rightarrow> World \<Rightarrow> thrown + World" where
  "storeSession key h w =
     (if key = ''length'' then Inl RangeError
      else if key = ''__proto__'' then Inr (w\<lparr>sessionArrayProto := Some h\<rparr>)
      else Inr (w\<lparr>sessionArray := (sessionArray w)(key \<mapsto> h)\<rparr>))"

text \<open>
  The continuations of the callbacks, in the order in which the \<^verbatim>\<open>create\<close> promises
  settle: a handle is stored under the callback's own \<^verbatim>\<open>session\<close>; a rejection of
  \<^verbatim>\<open>create\<close>, or a store that throws, rejects the callback's promise, and the first
  rejection is the one \<^verbatim>\<open>Promise.all\<close> rejects with. Later continuations still run.
\<close>

fun settle ::
  "string list \<Rightarrow> (nat \<Rightarrow> thrown + Whatsapp) \<Rightarrow> nat list \<Rightarrow> thrown option \<Rightarrow> World
     \<Rightarrow> thrown option \<times> World" where
  "settle names res [] rej w = (rej, w)"
| "settle names res (i # is) rej w =
     (case res i of
        Inl e \<Rightarrow> settle names res is (case rej of None \<Rightarrow> Some e | Some e0 \<Rightarrow> Some e0) w
      | Inr h \<Rightarrow>
          (case storeSession (names ! i) h w of
             Inl e \<Rightarrow>
               settle names res is (case rej of None \<Rightarrow> Some e | Some e0 \<Rightarrow> Some e0) w
           | Inr w' \<Rightarrow> settle names res is rej w'))"

text \<open>A promise settles once, and only the promises of calls that were made settle.\<close>

definition settled :: "nat \<Rightarrow> nat list \<Rightarrow> nat list" where
  "settled n order = remdups (filter (\<lambda>i. i < n) order)"

text \<open>
  \<^verbatim>\<open>initAllSessions\<close>. The outcome is \<open>None\<close> when \<^verbatim>\<open>Promise.all\<close> stays pending for ever
  (a construction never settles and none rejects), \<open>Some (Inl e)\<close> when the function
  raises \<open>e\<close>, and \<open>Some (Inr reg)\<close> when it returns the registry (the array, given by
  its own properties). The state returned is the one after every listed settlement.
\<close>

definition initAllSessions ::
  "Node_env \<Rightarrow> Create_env \<Rightarrow> CreateOptions option \<Rightarrow> World
     \<Rightarrow> (thrown + (string \<rightharpoonup> Whatsapp)) option \<times> World" where
  "initAllSessions env cr options w =
     (let r = nextRef w;
          mergedOptions = spread (defaultOptions env) options;
          w1 = w\<lparr>heap := (heap w)(r \<mapsto> mergedOptions), nextRef := Suc r\<rparr>;
          (allSessionsNames, w2) = getSessionNames env (Some (asOptions mergedOptions)) w1
      in case allSessionsNames of
           None \<Rightarrow> (Some (Inl TypeError), w2)
         | Some names \<Rightarrow>
             (let w3 = fanOut r names w2;
                  order = settled (length names) (settleOrder cr);
                  (rej, w4) = settle names (settlement cr) order None w3
              in case rej of
                   Some e \<Rightarrow> (Some (Inl e), w4)
                 | None \<Rightarrow>
                     if length order = length names then (Some (Inr (sessionArray w4)), w4)
                     else (None, w4)))"

text \<open>
  \<^verbatim>\<open>createSession\<close>: one construction, whose settlement is \<open>res\<close>, stored under
  \<^verbatim>\<open>createOption.session\<close>; a missing \<^verbatim>\<open>session\<close> is the key \<^verbatim>\<open>undefined\<close>. The call
  raises when the construction rejects and when the store throws.
\<close>

definition createSession ::
  "(thrown + Whatsapp) \<Rightarrow> CreateOptions \<Rightarrow> World \<Rightarrow> (thrown + Whatsapp) \<times> World" where
  "createSession res createOption w =
     (case res of
        Inl e \<Rightarrow> (Inl e, w)
      | Inr h \<Rightarrow>
          (case storeSession
                  (case opt_session createOption of None \<Rightarrow> ''undefined'' | Some s \<Rightarrow> s) h w of
             Inl e \<Rightarrow> (Inl e, w)
           | Inr w' \<Rightarrow> (Inr h, w')))"

section \<open>Host layer (\<^verbatim>\<open>api/layers/host.layer.ts\<close>)\<close>

text \<open>
  The host layer runs on one thread: its methods run to completion between two
  \<^verbatim>\<open>await\<close>s, and while a method is suspended at an \<^verbatim>\<open>await\<close> the runtime may call the
  interval callbacks that are due and deliver the page's \<^verbatim>\<open>close\<close> event.

  The state holds the fields of the object (\<open>this_session\<close>, \<open>options\<close>,
  \<open>autoCloseInterval\<close>, \<open>statusFind\<close>: whether an observer is registered), the intervals
  the runtime has active (handle, and the \<^verbatim>\<open>remain\<close> variable of the callback's closure),
  the page (\<open>isClosed\<close>, and the number of \<^verbatim>\<open>page.close()\<close> calls), the calls the two
  observers received, and \<open>pending\<close>: for each coming \<^verbatim>\<open>await\<close>, the interrupts that
  arrive during it (none once the list is used up). The calls of the logger have no effect
  on any of these and are left out.
\<close>

datatype interrupt = Tick | PageClose

record HostLayer =
  this_session :: string
  options :: CreateConfig
  autoCloseInterval :: "nat option"
  statusFind :: bool
  intervals :: "(nat \<times> int) list"
  nextInterval :: nat
  isClosed :: bool
  closeCalls :: nat
  statusCalls :: "(string \<times> string) list"
  qrCalls :: "(string \<times> string \<times> nat \<times> string \<times> string) list"
  pending :: "interrupt list list"

text \<open>The constructor: \<^verbatim>\<open>autoCloseInterval = null\<close>, \<^verbatim>\<open>statusFind = null\<close>.\<close>

definition newHostLayer ::
  "CreateConfig \<Rightarrow> string \<Rightarrow> CreateOptions option \<Rightarrow> interrupt list list \<Rightarrow> HostLayer" where
  "newHostLayer dflt s opts sched =
     \<lparr> this_session = s, options = spread dflt opts, autoCloseInterval = None,
       statusFind = False, intervals = [], nextInterval = 0, isClosed = False,
       closeCalls = 0, statusCalls = [], qrCalls = [], pending = sched \<rparr>"

text \<open>\<^verbatim>\<open>this.statusFind && this.statusFind(statusGet, this.session)\<close>\<close>

definition notify :: "string \<Rightarrow> HostLayer \<Rightarrow> HostLayer" where
  "notify statusGet st =
     (if statusFind st
      then st\<lparr>statusCalls := statusCalls st @ [(statusGet, this_session st)]\<rparr>
      else st)"

text \<open>\<^verbatim>\<open>clearInterval\<close> of \<^verbatim>\<open>null\<close> does nothing.\<close>

definition cancelAutoClose :: "HostLayer \<Rightarrow> HostLayer" where
  "cancelAutoClose st =
     st\<lparr>intervals :=
          (case autoCloseInterval st of
             None \<Rightarrow> intervals st
           | Some h \<Rightarrow> filter (\<lambda>(k, r). k \<noteq> h) (intervals st)),
        autoCloseInterval := None\<rparr>"

text \<open>
  \<^verbatim>\<open>page.close()\<close> is asynchronous: the call is counted, and \<^verbatim>\<open>isClosed()\<close> changes when
  the page's \<^verbatim>\<open>close\<close> event arrives.
\<close>

definition tryAutoClose :: "HostLayer \<Rightarrow> HostLayer" where
  "tryAutoClose st =
     (let st1 = (if autoCloseInterval st \<noteq> None then cancelAutoClose st else st)
      in if autoClose (options st1) > 0 \<and> autoCloseInterval st1 = None \<and> \<not> isClosed st1
         then (let st2 = notify ''autocloseCalled'' st1
               in st2\<lparr>closeCalls := Suc (closeCalls st2)\<rparr>)
         else st1)"

text \<open>
  \<^verbatim>\<open>Math.round(autoClose / 1000)\<close> rounds a half upwards; \<open>autoClose\<close> is a whole number
  of milliseconds.
\<close>

definition startAutoClose :: "HostLayer \<Rightarrow> HostLayer" where
  "startAutoClose st =
     (if autoClose (options st) > 0 \<and> autoCloseInterval st = None
      then (let seconds = (autoClose (options st) + 500) div 1000;
                h = nextInterval st
            in st\<lparr>autoCloseInterval := Some h,
                  intervals := intervals st @ [(h, seconds)],
                  nextInterval := Suc h\<rparr>)
      else st)"

text \<open>
  The callback given to \<^verbatim>\<open>setInterval\<close>, for the interval with handle \<open>h\<close>; the runtime
  does not call the callback of a cleared interval.
\<close>

definition intervalCallback :: "nat \<Rightarrow> HostLayer \<Rightarrow> HostLayer" where
  "intervalCallback h st =
     (case map_of (intervals st) h of
        None \<Rightarrow> st
      | Some remain \<Rightarrow>
          if isClosed st then cancelAutoClose st
          else (let remain' = remain - 1;
                    st1 = st\<lparr>intervals :=
                               map (\<lambda>(k, r). if k = h then (k, remain') else (k, r))
                                 (intervals st)\<rparr>
                in if remain' \<le> 0 then tryAutoClose st1 else st1))"

text \<open>One second passes: every interval that is active is called once.\<close>

definition tick :: "HostLayer \<Rightarrow> HostLayer" where
  "tick st = foldl (\<lambda>s h. intervalCallback h s) st (map fst (intervals st))"

text \<open>The handler of the page's \<^verbatim>\<open>close\<close> event, registered by the constructor.\<close>

definition pageClosed :: "HostLayer \<Rightarrow> HostLayer" where
  "pageClosed st = (if isClosed st then st else cancelAutoClose (st\<lparr>isClosed := True\<rparr>))"

definition deliver :: "interrupt \<Rightarrow> HostLayer \<Rightarrow> HostLayer" where
  "deliver i st = (case i of Tick \<Rightarrow> tick st | PageClose \<Rightarrow> pageClosed st)"

text \<open>An \<^verbatim>\<open>await\<close>: the interrupts scheduled for it are delivered in order.\<close>

definition suspend :: "HostLayer \<Rightarrow> HostLayer" where
  "suspend st =
     (case pending st of
        [] \<Rightarrow> st
      | is # rest \<Rightarrow> foldl (\<lambda>s i. deliver i s) (st\<lparr>pending := rest\<rparr>) is)"

subsection \<open>The QR scan loop\<close>

record ScrapQrcode =
  base64Image :: string
  urlCode :: string

text \<open>
  What the page answers in one iteration of the loop of \<^verbatim>\<open>waitForQrCodeScan\<close>. Each
  probe is followed by its \<^verbatim>\<open>catch\<close>, so a rejection is the \<open>None\<close> answer; an empty
  \<^verbatim>\<open>urlCode\<close> is falsy.
\<close>

text \<open>
  Modelled from the spec: \<^verbatim>\<open>asciiQr\<close>, imported from \<^verbatim>\<open>controllers/auth\<close>, renders a code
  as a text (\<^verbatim>\<open>renderAsciiQr(urlCode) -> text\<close>) and does not reject.
\<close>

record scan_answers =
  needsToScan :: "bool option"
  scrapeImg :: "ScrapQrcode option"
  retrieveQR :: "ScrapQrcode option"
  asciiQr :: string

definition getQrCode :: "scan_answers \<Rightarrow> HostLayer \<Rightarrow> ScrapQrcode option \<times> HostLayer" where
  "getQrCode a st =
     (let st1 = suspend st
      in case scrapeImg a of
           None \<Rightarrow> (retrieveQR a, suspend st1)
         | Some q \<Rightarrow> if urlCode q = [] then (retrieveQR a, suspend st1) else (Some q, st1))"

text \<open>
  How far a polling loop has come on the recorded answers: it has left (\<open>Returned\<close>), or it
  is still running after the last recorded answer (\<open>Polling\<close>). Both carry what has been
  reached: the local variables and the state, with every call made so far.
\<close>

datatype 'a progress = Returned (reached: 'a) | Polling (reached: 'a)

definition returned :: "'a progress \<Rightarrow> bool" where
  "returned p = (case p of Returned x \<Rightarrow> True | Polling x \<Rightarrow> False)"

text \<open>
  The \<^verbatim>\<open>while (true)\<close> loop of \<^verbatim>\<open>waitForQrCodeScan\<close>, with its two local variables
  \<^verbatim>\<open>urlCode\<close> and \<^verbatim>\<open>attempt\<close>.
\<close>

fun scanLoop ::
  "scan_answers list \<Rightarrow> bool \<Rightarrow> string option \<Rightarrow> nat \<Rightarrow> HostLayer
     \<Rightarrow> ((string option \<times> nat) \<times> HostLayer) progress" where
  "scanLoop [] catchQR lastUrlCode attempt st = Polling ((lastUrlCode, attempt), st)"
| "scanLoop (a # as) catchQR lastUrlCode attempt st =
     (let st1 = suspend st
      in if needsToScan a \<noteq> Some True then Returned ((lastUrlCode, attempt), st1)
         else
           (case getQrCode a st1 of
              (None, st2) \<Rightarrow> Returned ((lastUrlCode, attempt), st2)
            | (Some result, st2) \<Rightarrow>
                if urlCode result = [] then Returned ((lastUrlCode, attempt), st2)
                else if lastUrlCode \<noteq> Some (urlCode result) then
                  (let attempt' = Suc attempt;
                       render = (logQR (options st2) \<or> catchQR);
                       qr = (if render then asciiQr a else []);
                       st3 = (if render then suspend st2 else st2);
                       st4 = (if catchQR
                              then st3\<lparr>qrCalls := qrCalls st3 @
                                     [(base64Image result, qr, attempt', urlCode result,
                                       this_session st3)]\<rparr>
                              else st3)
                   in scanLoop as catchQR (Some (urlCode result)) attempt' (suspend st4))
                else scanLoop as catchQR lastUrlCode attempt (suspend st2)))"

text \<open>
  \<^verbatim>\<open>waitForQrCodeScan\<close>: the loop, started with no code seen and the counter at 0. The
  result is \<open>None\<close> when the loop is still running after the last recorded answer.
\<close>

definition waitForQrCodeScan :: "scan_answers list \<Rightarrow> bool \<Rightarrow> HostLayer \<Rightarrow> HostLayer option" where
  "waitForQrCodeScan as catchQR st =
     (case scanLoop as catchQR None 0 st of
        Returned r \<Rightarrow> Some (snd r)
      | Polling r \<Rightarrow> None)"

subsection \<open>Login\<close>

text \<open>
  \<^verbatim>\<open>waitForInChat\<close>, on the successive answers of \<^verbatim>\<open>isInsideChat\<close> (\<open>None\<close> is an
  answer that is neither \<^verbatim>\<open>true\<close> nor \<^verbatim>\<open>false\<close>); \<open>None\<close> as a result: still polling
  after the last recorded answer.
\<close>

fun waitForInChat :: "bool option list \<Rightarrow> HostLayer \<Rightarrow> (bool option \<times> HostLayer) option" where
  "waitForInChat [] st = None"
| "waitForInChat (inChat # rest) st =
     (let st1 = suspend st
      in if inChat = Some False then waitForInChat rest (suspend st1)
         else Some (inChat, st1))"

definition waitForPageLoad :: "HostLayer \<Rightarrow> HostLayer" where
  "waitForPageLoad st = suspend (suspend st)"

text \<open>
  The answers of the page during one \<^verbatim>\<open>waitForLogin\<close>: \<^verbatim>\<open>isAuthenticated\<close> before and
  after the scan (\<open>None\<close> is \<^verbatim>\<open>null\<close>, also after a rejection), the iterations of the
  scan loop, and the answers of \<^verbatim>\<open>isInsideChat\<close>.
\<close>

record Login_env =
  authFirst :: "bool option"
  scanAnswers :: "scan_answers list"
  authAfterScan :: "bool option"
  insideChat :: "bool option list"

text \<open>
  The first \<^verbatim>\<open>if\<close> chain of \<^verbatim>\<open>waitForLogin\<close>: it throws (\<open>Inl\<close>) or goes on with the
  value of \<^verbatim>\<open>authenticated\<close>.
\<close>

definition loginScan ::
  "Login_env \<Rightarrow> bool \<Rightarrow> bool option \<Rightarrow> HostLayer
     \<Rightarrow> ((thrown + bool option) \<times> HostLayer) option" where
  "loginScan env catchQR authenticated st =
     (if authenticated = Some False then
        (case waitForQrCodeScan (scanAnswers env) catchQR (notify ''notLogged'' st) of
           None \<Rightarrow> None
         | Some st1 \<Rightarrow>
             (let st2 = suspend (suspend st1);
                  authenticated' = authAfterScan env
              in if authenticated' = None then
                   Some (Inr authenticated', notify ''qrReadError'' st2)
                 else if authenticated' = Some True then
                   Some (Inr authenticated', notify ''qrReadSuccess'' st2)
                 else
                   Some (Inl (Reason ''Failed to read the QRCode''),
                         tryAutoClose (notify ''qrReadFail'' st2))))
      else if authenticated = Some True then
        Some (Inr authenticated, notify ''isLogged'' st)
      else Some (Inr authenticated, st))"

text \<open>The rest of \<^verbatim>\<open>waitForLogin\<close>, from \<^verbatim>\<open>if (authenticated === true)\<close> on.\<close>

definition loginFinish ::
  "Login_env \<Rightarrow> bool option \<Rightarrow> HostLayer \<Rightarrow> ((thrown + bool) \<times> HostLayer) option" where
  "loginFinish env authenticated st =
     (if authenticated = Some True then
        (case waitForInChat (insideChat env)
                (suspend (startAutoClose (cancelAutoClose st))) of
           None \<Rightarrow> None
         | Some (inChat, st1) \<Rightarrow>
             if inChat \<noteq> Some True then
               Some (Inl (Reason ''Phone not connected''),
                     tryAutoClose (notify ''phoneNotConnected'' st1))
             else Some (Inr True, notify ''inChat'' (cancelAutoClose st1)))
      else if authenticated = Some False then
        Some (Inl (Reason ''Not logged''), tryAutoClose st)
      else Some (Inl (Reason ''Unknow error''), tryAutoClose st))"

text \<open>
  \<^verbatim>\<open>waitForLogin\<close>; \<open>sf\<close> tells whether a \<^verbatim>\<open>statusFind\<close> observer is passed. \<open>None\<close>: one
  of the two polling loops is still running after the last recorded answer.
\<close>

definition waitForLogin ::
  "Login_env \<Rightarrow> bool \<Rightarrow> bool \<Rightarrow> HostLayer \<Rightarrow> ((thrown + bool) \<times> HostLayer) option" where
  "waitForLogin env catchQR sf st =
     (let st1 = waitForPageLoad (st\<lparr>statusFind := sf\<rparr>);
          st2 = suspend st1;
          authenticated = authFirst env;
          st3 = startAutoClose st2
      in case loginScan env catchQR authenticated st3 of
           None \<Rightarrow> None
         | Some (Inl e, st4) \<Rightarrow> Some (Inl e, st4)
         | Some (Inr authenticated', st4) \<Rightarrow> loginFinish env authenticated' st4)"

subsection \<open>Runs of the Auto-Close timer\<close>

text \<open>
  The calls that reach the timer, from the methods of the class and from the runtime,
  and a run of them in order.
\<close>

datatype timer_call = Start | Cancel | TryClose | Event interrupt

fun timerCall :: "timer_call \<Rightarrow> HostLayer \<Rightarrow> HostLayer" where
  "timerCall Start st = startAutoClose st"
| "timerCall Cancel st = cancelAutoClose st"
| "timerCall TryClose st = tryAutoClose st"
| "timerCall (Event i) st = deliver i st"

definition timerRun :: "timer_call list \<Rightarrow> HostLayer \<Rightarrow> HostLayer" where
  "timerRun cs st = foldl (\<lambda>s c. timerCall c s) st cs"

text \<open>
  The field and the runtime agree: the active intervals are exactly the one the field
  holds, if it holds one.
\<close>

definition timerConsistent :: "HostLayer \<Rightarrow> bool" where
  "timerConsistent st =
     (map fst (intervals st) = (case autoCloseInterval st of None \<Rightarrow> [] | Some h \<Rightarrow> [h]))"

section \<open>Names used in the statements, and example inputs\<close>

subsection \<open>Session manager\<close>

text \<open>The directory \<^verbatim>\<open>getSessionNames\<close> reads, and the identifiers of a listing.\<close>

definition tokenDir :: "Node_env \<Rightarrow> string" where
  "tokenDir env =
     path_resolve env [dirname env, ''..'', ''..'', folderNameToken (defaultOptions env)]"

definition sessionNames :: "string list \<Rightarrow> string list" where
  "sessionNames files = map (\<lambda>m. replace m ''.data.json'' '''') files"

definition exampleDefaults :: CreateConfig where
  "exampleDefaults =
     \<lparr> session = ''session'', folderNameToken = ''tokens'', autoClose = 60000,
       logQR = True, logger = 0 \<rparr>"

text \<open>A file system with one directory of tokens, whose listing is given.\<close>

definition exampleNode :: "(thrown + string list) \<Rightarrow> Node_env" where
  "exampleNode listing =
     \<lparr> dirname = ''/app/dist/controllers'', defaultOptions = exampleDefaults,
       path_resolve = (\<lambda>ps. concat (map (\<lambda>p. p @ ''/'') ps)),
       readdir = (\<lambda>d. if d = ''/app/dist/controllers/../../tokens/'' then listing
                      else Inl (Reason ''ENOENT'')) \<rparr>"

definition emptyWorld :: World where
  "emptyWorld =
     \<lparr> heap = Map.empty, nextRef = 0, sessionArray = Map.empty,
       sessionArrayProto = None, dirsRead = [],
       errorLog = [], createCalls = [] \<rparr>"

definition threeTokens :: "string list" where
  "threeTokens = [''a.data.json'', ''b.data.json'', ''c.data.json'']"

text \<open>Three constructions settle in the order 2, 1, 0; the second one rejects.\<close>

definition secondRejects :: Create_env where
  "secondRejects =
     \<lparr> settlement = (\<lambda>i. if i = 1 then Inl (Reason ''browser crashed'') else Inr (Whatsapp i)),
       settleOrder = [2, 1, 0] \<rparr>"

text \<open>
  A listing with a token file for the identifier \<^verbatim>\<open>length\<close>; and the constructions
  settling in the order 0, 2, 1, the second one rejecting.
\<close>

definition tokensWithLength :: "string list" where
  "tokensWithLength = [''a.data.json'', ''b.data.json'', ''length.data.json'']"

definition secondRejectsLate :: Create_env where
  "secondRejectsLate =
     \<lparr> settlement = (\<lambda>i. if i = 1 then Inl (Reason ''browser crashed'') else Inr (Whatsapp i)),
       settleOrder = [0, 2, 1] \<rparr>"

definition otherFolder :: CreateOptions where
  "otherFolder =
     \<lparr> opt_session = None, opt_folderNameToken = Some ''elsewhere'', opt_autoClose = None,
       opt_logQR = None, opt_logger = None \<rparr>"

subsection \<open>The scan loop, as seen from the page\<close>

text \<open>
  The result of \<^verbatim>\<open>getQrCode\<close> for the answers of one iteration, and the QR result that
  the iteration goes on with: none when the loop leaves in this iteration (the page does
  not ask for a scan, or no code can be obtained).
\<close>

definition qrAnswer :: "scan_answers \<Rightarrow> ScrapQrcode option" where
  "qrAnswer a =
     (case scrapeImg a of
        None \<Rightarrow> retrieveQR a
      | Some q \<Rightarrow> if urlCode q = [] then retrieveQR a else Some q)"

definition scanned :: "scan_answers \<Rightarrow> ScrapQrcode option" where
  "scanned a =
     (if needsToScan a \<noteq> Some True then None
      else case qrAnswer a of
             None \<Rightarrow> None
           | Some q \<Rightarrow> if urlCode q = [] then None else Some q)"

text \<open>The sequence of codes that the loop fetches before it leaves.\<close>

fun fetchedCodes :: "scan_answers list \<Rightarrow> string list" where
  "fetchedCodes [] = []"
| "fetchedCodes (a # as) =
     (case scanned a of None \<Rightarrow> [] | Some q \<Rightarrow> urlCode q # fetchedCodes as)"

text \<open>The recorded answers contain an iteration in which the loop leaves.\<close>

definition leavesScan :: "scan_answers list \<Rightarrow> bool" where
  "leavesScan as = list_ex (\<lambda>a. scanned a = None) as"

text \<open>
  The codes of a sequence that differ from the code seen just before them, the first one
  being compared with \<open>l\<close> (\<open>None\<close>: no code seen yet).
\<close>

definition changes :: "string option \<Rightarrow> string list \<Rightarrow> string list" where
  "changes l codes =
     (case l of None \<Rightarrow> remdups_adj codes | Some c \<Rightarrow> tl (remdups_adj (c # codes)))"

text \<open>The \<^verbatim>\<open>attempt\<close> and the \<^verbatim>\<open>urlCode\<close> argument of a call of the QR observer.\<close>

definition qrAttempt :: "string \<times> string \<times> nat \<times> string \<times> string \<Rightarrow> nat" where
  "qrAttempt call = fst (snd (snd call))"

definition qrUrlCode :: "string \<times> string \<times> nat \<times> string \<times> string \<Rightarrow> string" where
  "qrUrlCode call = fst (snd (snd (snd call)))"

subsection \<open>States named in the proofs\<close>

text \<open>
  What every step of the host layer keeps: the session, the options, the registered
  observer, and the agreement of the field with the runtime.
\<close>

definition keeps :: "HostLayer \<Rightarrow> HostLayer \<Rightarrow> bool" where
  "keeps st st' \<longleftrightarrow>
     this_session st' = this_session st \<and> options st' = options st \<and>
     statusFind st' = statusFind st \<and> (timerConsistent st \<longrightarrow> timerConsistent st')"

text \<open>
  A timer started on an idle state, with \<open>remain\<close> seconds left; and the state after that
  timer has fired.
\<close>

definition counting :: "HostLayer \<Rightarrow> int \<Rightarrow> HostLayer" where
  "counting st remain =
     st\<lparr>autoCloseInterval := Some (nextInterval st),
        intervals := [(nextInterval st, remain)],
        nextInterval := Suc (nextInterval st)\<rparr>"

definition fired :: "HostLayer \<Rightarrow> HostLayer" where
  "fired st =
     (notify ''autocloseCalled'' (st\<lparr>nextInterval := Suc (nextInterval st)\<rparr>))
       \<lparr>closeCalls := Suc (closeCalls st)\<rparr>"

text \<open>The state of \<^verbatim>\<open>waitForLogin\<close> after \<^verbatim>\<open>this.startAutoClose()\<close>.\<close>

definition started :: "bool \<Rightarrow> HostLayer \<Rightarrow> HostLayer" where
  "started sf st = startAutoClose (suspend (waitForPageLoad (st\<lparr>statusFind := sf\<rparr>)))"

subsection \<open>Example inputs of the host layer\<close>

text \<open>
  A host layer for the session \<^verbatim>\<open>sales\<close>, with \<^verbatim>\<open>autoClose\<close> set to \<open>ms\<close>, a status
  observer if \<open>sf\<close>, and a schedule of interrupts.
\<close>

definition exampleHost :: "int \<Rightarrow> bool \<Rightarrow> interrupt list list \<Rightarrow> HostLayer" where
  "exampleHost ms sf sched =
     (newHostLayer exampleDefaults ''sales''
        (Some \<lparr> opt_session = None, opt_folderNameToken = None, opt_autoClose = Some ms,
                opt_logQR = Some False, opt_logger = None \<rparr>) sched)
       \<lparr>statusFind := sf\<rparr>"

text \<open>
  An iteration in which the page shows the QR code \<open>code\<close>, and one in which it asks for
  no scan.
\<close>

definition pageShows :: "string \<Rightarrow> scan_answers" where
  "pageShows code =
     \<lparr> needsToScan = Some True,
       scrapeImg = Some \<lparr> base64Image = ''image of '' @ code, urlCode = code \<rparr>,
       retrieveQR = None, asciiQr = ''ascii of '' @ code \<rparr>"

definition scanDone :: scan_answers where
  "scanDone = \<lparr> needsToScan = Some False, scrapeImg = None, retrieveQR = None, asciiQr = [] \<rparr>"

definition scrapeAABBB :: "scan_answers list" where
  "scrapeAABBB =
     [pageShows ''A'', pageShows ''A'', pageShows ''B'', pageShows ''B'', pageShows ''B'']"

definition scanAABBB :: "scan_answers list" where
  "scanAABBB =
     [pageShows ''A'', pageShows ''A'', pageShows ''B'', pageShows ''B'', pageShows ''B'',
      scanDone]"

text \<open>
  A login in which the first probe says unauthenticated, the page asks for no scan, and
  the second probe answers \<open>second\<close>.
\<close>

definition quickEnv :: "bool option \<Rightarrow> Login_env" where
  "quickEnv second =
     \<lparr> authFirst = Some False, scanAnswers = [scanDone], authAfterScan = second,
       insideChat = [Some True] \<rparr>"

definition loginEnv :: "bool option \<Rightarrow> bool option \<Rightarrow> Login_env" where
  "loginEnv first second =
     \<lparr> authFirst = first, scanAnswers = scanAABBB, authAfterScan = second,
       insideChat = [Some False, Some True] \<rparr>"

section \<open>Properties of the session manager\<close>

lemmas manager_evals = initAllSessions_def getSessionNames_def callCreate_def settled_def
  storeSession_def
  spread_def asOptions_def exampleNode_def exampleDefaults_def emptyWorld_def
  secondRejects_def threeTokens_def otherFolder_def tokenDir_def Let_def
  tokensWithLength_def secondRejectsLate_def

subsection \<open>Listing the known sessions\<close>

lemma getSessionNames_rejected:
  "readdir env (tokenDir env) = Inl e \<Longrightarrow>
   getSessionNames env opts w =
     (None, w\<lparr>dirsRead := dirsRead w @ [tokenDir env],
              errorLog := errorLog w @
                [(logger (spread (defaultOptions env) opts), ''Error getAllTokens() -> '', e)]\<rparr>)"
  by (simp add: getSessionNames_def tokenDir_def Let_def)

lemma getSessionNames_listed:
  "readdir env (tokenDir env) = Inr files \<Longrightarrow>
   getSessionNames env opts w =
     (Some (sessionNames files), w\<lparr>dirsRead := dirsRead w @ [tokenDir env]\<rparr>)"
  by (simp add: getSessionNames_def tokenDir_def sessionNames_def Let_def)

lemma initAllSessions_rejected:
  "readdir env (tokenDir env) = Inl e \<Longrightarrow>
   fst (initAllSessions env cr opts w) = Some (Inl TypeError)"
  by (simp add: getSessionNames_rejected initAllSessions_def Let_def)

text \<open>
  Claim C1, evaluated where the token directory cannot be read (\<^verbatim>\<open>readdir\<close> rejects with
  ENOENT): \<^verbatim>\<open>getSessionNames\<close> logs the error, but its result is \<^verbatim>\<open>undefined\<close> and not an
  empty sequence, and \<^verbatim>\<open>initAllSessions\<close> raises a \<^verbatim>\<open>TypeError\<close> at
  \<^verbatim>\<open>allSessionsNames.map\<close> instead of returning the registry.
\<close>

theorem getSessionNames_read_error_undefined:
  "fst (getSessionNames (exampleNode (Inl (Reason ''ENOENT''))) None emptyWorld) = None \<and>
   errorLog (snd (getSessionNames (exampleNode (Inl (Reason ''ENOENT''))) None emptyWorld))
     = [(0, ''Error getAllTokens() -> '', Reason ''ENOENT'')] \<and>
   fst (initAllSessions (exampleNode (Inl (Reason ''ENOENT''))) secondRejects None emptyWorld)
     = Some (Inl TypeError)"
  by (simp add: manager_evals)

text \<open>
  Claim C10: \<^verbatim>\<open>getSessionNames\<close> ignores the \<^verbatim>\<open>folderNameToken\<close> of its argument. Whatever
  the options of two calls are, both read the directory that the default configuration
  names, and both return the same identifiers.
\<close>

theorem getSessionNames_ignores_folderNameToken:
  "dirsRead (snd (getSessionNames env opts w)) = dirsRead w @ [tokenDir env] \<and>
   dirsRead (snd (getSessionNames env opts2 w)) = dirsRead w @ [tokenDir env] \<and>
   fst (getSessionNames env opts w) = fst (getSessionNames env opts2 w)"
  by (simp add: getSessionNames_def tokenDir_def Let_def split: sum.splits)

text \<open>
  C10 at a concrete input: a call without options and a call that asks for the folder
  \<^verbatim>\<open>elsewhere\<close> read the same directory and return \<^verbatim>\<open>a\<close>, \<^verbatim>\<open>b\<close>, \<^verbatim>\<open>c\<close>.
\<close>

theorem getSessionNames_ignores_folderNameToken_witness:
  "dirsRead (snd (getSessionNames (exampleNode (Inr threeTokens)) (Some otherFolder) emptyWorld))
     = [''/app/dist/controllers/../../tokens/''] \<and>
   dirsRead (snd (getSessionNames (exampleNode (Inr threeTokens)) None emptyWorld))
     = [''/app/dist/controllers/../../tokens/''] \<and>
   fst (getSessionNames (exampleNode (Inr threeTokens)) (Some otherFolder) emptyWorld)
     = Some [''a'', ''b'', ''c''] \<and>
   fst (getSessionNames (exampleNode (Inr threeTokens)) None emptyWorld)
     = Some [''a'', ''b'', ''c'']"
  using getSessionNames_ignores_folderNameToken
    [of "exampleNode (Inr threeTokens)" "Some otherFolder" emptyWorld None]
  by (simp add: manager_evals)

subsection \<open>The fan-out of \<^verbatim>\<open>initAllSessions\<close>\<close>

lemma callCreate_at:
  "heap w r = Some c \<Longrightarrow>
   callCreate r s w =
     w\<lparr>heap := (heap w)(r \<mapsto> c\<lparr>session := s\<rparr>),
       createCalls := createCalls w @ [(r, c\<lparr>session := s\<rparr>)]\<rparr>"
  by (simp add: callCreate_def)

lemma fanOut_createCalls:
  "heap w r = Some c \<Longrightarrow>
   createCalls (fanOut r names w) =
     createCalls w @ map (\<lambda>s. (r, c\<lparr>session := s\<rparr>)) names"
proof (induction names arbitrary: w c)
  case Nil
  then show ?case by simp
next
  case (Cons s ss)
  have h: "heap (callCreate r s w) r = Some (c\<lparr>session := s\<rparr>)"
    using Cons.prems by (simp add: callCreate_at)
  show ?case
    using Cons.IH [OF h] Cons.prems by (simp add: callCreate_at)
qed


lemma settle_keeps:
  "createCalls (snd (settle names res order rej w)) = createCalls w"
  "heap (snd (settle names res order rej w)) = heap w"
  by (induction order arbitrary: rej w; simp add: storeSession_def split: sum.splits)+

lemma initAllSessions_listed:
  assumes "readdir env (tokenDir env) = Inr files"
  shows "initAllSessions env cr opts w =
     (let w3 = fanOut (nextRef w) (sessionNames files)
                 (w\<lparr>heap := (heap w)(nextRef w \<mapsto> spread (defaultOptions env) opts),
                    nextRef := Suc (nextRef w),
                    dirsRead := dirsRead w @ [tokenDir env]\<rparr>);
          order = settled (length files) (settleOrder cr);
          p = settle (sessionNames files) (settlement cr) order None w3
      in case fst p of
           Some e \<Rightarrow> (Some (Inl e), snd p)
         | None \<Rightarrow>
             if length order = length files then (Some (Inr (sessionArray (snd p))), snd p)
             else (None, snd p))"
  by (simp add: initAllSessions_def getSessionNames_listed [OF assms] Let_def sessionNames_def
      split: prod.splits option.splits)

text \<open>
  Claim C3, as the code has it: \<^verbatim>\<open>initAllSessions\<close> calls \<^verbatim>\<open>create\<close> once for every
  enumerated identifier, in order, and at the moment of each call the configuration that is
  passed has its \<^verbatim>\<open>session\<close> field equal to that identifier. Every call receives the same
  object, the \<^verbatim>\<open>mergedOptions\<close> allocated at the start.
\<close>

theorem initAllSessions_create_calls:
  assumes "readdir env (tokenDir env) = Inr files"
  shows "createCalls (snd (initAllSessions env cr opts w)) =
     createCalls w @
     map (\<lambda>s. (nextRef w, (spread (defaultOptions env) opts)\<lparr>session := s\<rparr>))
       (sessionNames files)"
  by (simp add: initAllSessions_listed [OF assms] Let_def settle_keeps fanOut_createCalls
      split: option.splits)

text \<open>
  C3, as the code has it, on the listing \<^verbatim>\<open>a.data.json\<close>, \<^verbatim>\<open>b.data.json\<close>,
  \<^verbatim>\<open>c.data.json\<close>.
\<close>

theorem initAllSessions_create_calls_witness:
  "readdir (exampleNode (Inr threeTokens)) (tokenDir (exampleNode (Inr threeTokens)))
     = Inr threeTokens \<and>
   map fst (createCalls
     (snd (initAllSessions (exampleNode (Inr threeTokens)) secondRejects None emptyWorld)))
     = [0, 0, 0] \<and>
   map (\<lambda>c. session (snd c)) (createCalls
     (snd (initAllSessions (exampleNode (Inr threeTokens)) secondRejects None emptyWorld)))
     = [''a'', ''b'', ''c'']"
  using initAllSessions_create_calls
    [of "exampleNode (Inr threeTokens)" threeTokens secondRejects None emptyWorld]
  by (simp add: manager_evals sessionNames_def)

text \<open>
  Claim C3 in its own words does not hold: the configuration is not one per call. On the
  same listing the calls for \<^verbatim>\<open>a\<close> and for \<^verbatim>\<open>b\<close> receive the same object (reference 0);
  it held \<^verbatim>\<open>a\<close> when the first construction was started, and it holds \<^verbatim>\<open>c\<close>, the
  identifier of a sibling, as soon as the \<^verbatim>\<open>map\<close> has run, which is before any
  construction resumes after an \<^verbatim>\<open>await\<close>.
\<close>

theorem initAllSessions_shared_config_counterexample:
  "fst (createCalls
     (snd (initAllSessions (exampleNode (Inr threeTokens)) secondRejects None emptyWorld)) ! 0)
     = 0 \<and>
   fst (createCalls
     (snd (initAllSessions (exampleNode (Inr threeTokens)) secondRejects None emptyWorld)) ! 1)
     = 0 \<and>
   session (snd (createCalls
     (snd (initAllSessions (exampleNode (Inr threeTokens)) secondRejects None emptyWorld)) ! 0))
     = ''a'' \<and>
   map_option session
     (heap (snd (initAllSessions (exampleNode (Inr threeTokens)) secondRejects None emptyWorld)) 0)
     = Some ''c''"
  by (simp add: manager_evals)

subsection \<open>Settlement of the constructions\<close>











section \<open>Properties of the host layer\<close>

lemmas host_evals = newHostLayer_def spread_def exampleDefaults_def exampleHost_def
  pageShows_def scanDone_def scanAABBB_def scrapeAABBB_def loginEnv_def

subsection \<open>Fields that the operations keep\<close>

lemma timerConsistent_cases:
  "timerConsistent st \<longleftrightarrow>
     (autoCloseInterval st = None \<and> intervals st = []) \<or>
     (\<exists>h r. autoCloseInterval st = Some h \<and> intervals st = [(h, r)])"
  by (cases "autoCloseInterval st"; cases "intervals st"; auto simp: timerConsistent_def)

lemma notify_fields [simp]:
  "this_session (notify s st) = this_session st"
  "options (notify s st) = options st"
  "autoCloseInterval (notify s st) = autoCloseInterval st"
  "statusFind (notify s st) = statusFind st"
  "intervals (notify s st) = intervals st"
  "nextInterval (notify s st) = nextInterval st"
  "isClosed (notify s st) = isClosed st"
  "closeCalls (notify s st) = closeCalls st"
  "qrCalls (notify s st) = qrCalls st"
  "pending (notify s st) = pending st"
  by (simp_all add: notify_def)

lemma cancelAutoClose_fields [simp]:
  "this_session (cancelAutoClose st) = this_session st"
  "options (cancelAutoClose st) = options st"
  "autoCloseInterval (cancelAutoClose st) = None"
  "statusFind (cancelAutoClose st) = statusFind st"
  "nextInterval (cancelAutoClose st) = nextInterval st"
  "isClosed (cancelAutoClose st) = isClosed st"
  "closeCalls (cancelAutoClose st) = closeCalls st"
  "statusCalls (cancelAutoClose st) = statusCalls st"
  "qrCalls (cancelAutoClose st) = qrCalls st"
  "pending (cancelAutoClose st) = pending st"
  by (simp_all add: cancelAutoClose_def)

lemma tryAutoClose_fields [simp]:
  "this_session (tryAutoClose st) = this_session st"
  "options (tryAutoClose st) = options st"
  "autoCloseInterval (tryAutoClose st) = None"
  "statusFind (tryAutoClose st) = statusFind st"
  "nextInterval (tryAutoClose st) = nextInterval st"
  "isClosed (tryAutoClose st) = isClosed st"
  "qrCalls (tryAutoClose st) = qrCalls st"
  "pending (tryAutoClose st) = pending st"
  by (simp_all add: tryAutoClose_def Let_def)

lemma startAutoClose_fields [simp]:
  "this_session (startAutoClose st) = this_session st"
  "options (startAutoClose st) = options st"
  "statusFind (startAutoClose st) = statusFind st"
  "isClosed (startAutoClose st) = isClosed st"
  "closeCalls (startAutoClose st) = closeCalls st"
  "statusCalls (startAutoClose st) = statusCalls st"
  "qrCalls (startAutoClose st) = qrCalls st"
  "pending (startAutoClose st) = pending st"
  by (simp_all add: startAutoClose_def Let_def)

lemma intervalCallback_fields [simp]:
  "this_session (intervalCallback h st) = this_session st"
  "options (intervalCallback h st) = options st"
  "statusFind (intervalCallback h st) = statusFind st"
  "nextInterval (intervalCallback h st) = nextInterval st"
  "isClosed (intervalCallback h st) = isClosed st"
  "qrCalls (intervalCallback h st) = qrCalls st"
  "pending (intervalCallback h st) = pending st"
  by (simp_all add: intervalCallback_def Let_def split: option.splits)

lemma callbacks_fields:
  "this_session (foldl (\<lambda>s h. intervalCallback h s) st hs) = this_session st"
  "options (foldl (\<lambda>s h. intervalCallback h s) st hs) = options st"
  "statusFind (foldl (\<lambda>s h. intervalCallback h s) st hs) = statusFind st"
  "nextInterval (foldl (\<lambda>s h. intervalCallback h s) st hs) = nextInterval st"
  "isClosed (foldl (\<lambda>s h. intervalCallback h s) st hs) = isClosed st"
  "qrCalls (foldl (\<lambda>s h. intervalCallback h s) st hs) = qrCalls st"
  "pending (foldl (\<lambda>s h. intervalCallback h s) st hs) = pending st"
  by (induction hs arbitrary: st; simp)+

lemma tick_fields [simp]:
  "this_session (tick st) = this_session st"
  "options (tick st) = options st"
  "statusFind (tick st) = statusFind st"
  "nextInterval (tick st) = nextInterval st"
  "isClosed (tick st) = isClosed st"
  "qrCalls (tick st) = qrCalls st"
  "pending (tick st) = pending st"
  by (simp_all add: tick_def callbacks_fields)

lemma pageClosed_fields [simp]:
  "this_session (pageClosed st) = this_session st"
  "options (pageClosed st) = options st"
  "statusFind (pageClosed st) = statusFind st"
  "nextInterval (pageClosed st) = nextInterval st"
  "closeCalls (pageClosed st) = closeCalls st"
  "statusCalls (pageClosed st) = statusCalls st"
  "qrCalls (pageClosed st) = qrCalls st"
  "pending (pageClosed st) = pending st"
  by (simp_all add: pageClosed_def)

lemma deliver_fields [simp]:
  "this_session (deliver i st) = this_session st"
  "options (deliver i st) = options st"
  "statusFind (deliver i st) = statusFind st"
  "nextInterval (deliver i st) = nextInterval st"
  "qrCalls (deliver i st) = qrCalls st"
  "pending (deliver i st) = pending st"
  by (cases i; simp add: deliver_def)+

lemma delivers_fields:
  "this_session (foldl (\<lambda>s i. deliver i s) st is) = this_session st"
  "options (foldl (\<lambda>s i. deliver i s) st is) = options st"
  "statusFind (foldl (\<lambda>s i. deliver i s) st is) = statusFind st"
  "nextInterval (foldl (\<lambda>s i. deliver i s) st is) = nextInterval st"
  "qrCalls (foldl (\<lambda>s i. deliver i s) st is) = qrCalls st"
  "pending (foldl (\<lambda>s i. deliver i s) st is) = pending st"
  by (induction "is" arbitrary: st; simp)+

lemma suspend_fields [simp]:
  "this_session (suspend st) = this_session st"
  "options (suspend st) = options st"
  "statusFind (suspend st) = statusFind st"
  "nextInterval (suspend st) = nextInterval st"
  "qrCalls (suspend st) = qrCalls st"
  by (simp_all add: suspend_def delivers_fields split: list.splits)

subsection \<open>The field and the runtime agree\<close>

lemma cancelAutoClose_idle:
  "autoCloseInterval st = None \<Longrightarrow> cancelAutoClose st = st"
  by (simp add: cancelAutoClose_def)

lemma cancelAutoClose_consistent:
  "timerConsistent st \<Longrightarrow> intervals (cancelAutoClose st) = []"
  by (auto simp: timerConsistent_cases cancelAutoClose_def)

lemma cancelAutoClose_twice:
  "cancelAutoClose (cancelAutoClose st) = cancelAutoClose st"
  by (simp add: cancelAutoClose_idle)

lemma startAutoClose_running:
  "autoCloseInterval st \<noteq> None \<Longrightarrow> startAutoClose st = st"
  by (auto simp: startAutoClose_def)

lemma startAutoClose_disabled:
  "autoClose (options st) \<le> 0 \<Longrightarrow> startAutoClose st = st"
  by (simp add: startAutoClose_def)

lemma tryAutoClose_intervals:
  "intervals (tryAutoClose st) = intervals (cancelAutoClose st)"
  by (simp add: tryAutoClose_def Let_def cancelAutoClose_def)

lemma timerConsistent_notify [simp]:
  "timerConsistent (notify s st) = timerConsistent st"
  by (simp add: timerConsistent_def)

lemma timerConsistent_cancel:
  "timerConsistent st \<Longrightarrow> timerConsistent (cancelAutoClose st)"
  by (simp add: timerConsistent_def [of "cancelAutoClose st"] cancelAutoClose_consistent)

lemma timerConsistent_try:
  "timerConsistent st \<Longrightarrow> timerConsistent (tryAutoClose st)"
  by (simp add: timerConsistent_def [of "tryAutoClose st"] tryAutoClose_intervals
      cancelAutoClose_consistent)

lemma timerConsistent_start:
  "timerConsistent st \<Longrightarrow> timerConsistent (startAutoClose st)"
  by (auto simp: timerConsistent_cases startAutoClose_def Let_def)

lemma timerConsistent_callback:
  "timerConsistent st \<Longrightarrow> timerConsistent (intervalCallback h st)"
proof -
  assume c: "timerConsistent st"
  show ?thesis
  proof (cases "map_of (intervals st) h")
    case None
    then show ?thesis using c by (simp add: intervalCallback_def)
  next
    case (Some remain)
    have upd: "timerConsistent
         (st\<lparr>intervals := map (\<lambda>(k, r). if k = h then (k, x) else (k, r)) (intervals st)\<rparr>)" for x
      using c by (auto simp: timerConsistent_cases)
    show ?thesis
      using Some c
      by (simp add: intervalCallback_def Let_def timerConsistent_cancel timerConsistent_try upd)
  qed
qed

lemma timerConsistent_callbacks:
  "timerConsistent st \<Longrightarrow> timerConsistent (foldl (\<lambda>s h. intervalCallback h s) st hs)"
  by (induction hs arbitrary: st) (simp_all add: timerConsistent_callback)

lemma timerConsistent_tick:
  "timerConsistent st \<Longrightarrow> timerConsistent (tick st)"
  by (simp add: tick_def timerConsistent_callbacks)

lemma timerConsistent_pageClosed:
  "timerConsistent st \<Longrightarrow> timerConsistent (pageClosed st)"
proof -
  assume c: "timerConsistent st"
  then have "timerConsistent (st\<lparr>isClosed := True\<rparr>)"
    by (simp add: timerConsistent_def)
  then show ?thesis using c by (simp add: pageClosed_def timerConsistent_cancel)
qed

lemma timerConsistent_deliver:
  "timerConsistent st \<Longrightarrow> timerConsistent (deliver i st)"
  by (cases i) (simp_all add: deliver_def timerConsistent_tick timerConsistent_pageClosed)

lemma timerConsistent_delivers:
  "timerConsistent st \<Longrightarrow> timerConsistent (foldl (\<lambda>s i. deliver i s) st is)"
  by (induction "is" arbitrary: st) (simp_all add: timerConsistent_deliver)

lemma timerConsistent_suspend:
  "timerConsistent st \<Longrightarrow> timerConsistent (suspend st)"
proof -
  assume c: "timerConsistent st"
  then have "timerConsistent (st\<lparr>pending := p\<rparr>)" for p
    by (simp add: timerConsistent_def)
  then show ?thesis using c
    by (simp add: suspend_def timerConsistent_delivers split: list.splits)
qed

lemma timerConsistent_call:
  "timerConsistent st \<Longrightarrow> timerConsistent (timerCall c st)"
  by (cases c)
    (simp_all add: timerConsistent_start timerConsistent_cancel timerConsistent_try
      timerConsistent_deliver)

lemma timerConsistent_run:
  "timerConsistent st \<Longrightarrow> timerConsistent (timerRun cs st)"
  unfolding timerRun_def
  by (induction cs arbitrary: st) (simp_all add: timerConsistent_call)

lemma timerConsistent_new: "timerConsistent (newHostLayer d s opts sched)"
  by (simp add: timerConsistent_def newHostLayer_def)

lemma timerConsistent_length:
  "timerConsistent st \<Longrightarrow> length (intervals st) \<le> 1"
  by (auto simp: timerConsistent_cases)

lemma restart_full:
  "timerConsistent st \<Longrightarrow> 0 < autoClose (options st) \<Longrightarrow>
   intervals (startAutoClose (cancelAutoClose st)) =
     [(nextInterval st, (autoClose (options st) + 500) div 1000)] \<and>
   autoCloseInterval (startAutoClose (cancelAutoClose st)) = Some (nextInterval st)"
  by (simp add: startAutoClose_def Let_def cancelAutoClose_consistent)

subsection \<open>The countdown\<close>

lemma tryAutoClose_disabled:
  "autoClose (options st) \<le> 0 \<Longrightarrow>
   closeCalls (tryAutoClose st) = closeCalls st \<and> statusCalls (tryAutoClose st) = statusCalls st"
  by (simp add: tryAutoClose_def Let_def)

lemma intervalCallback_disabled:
  "autoClose (options st) \<le> 0 \<Longrightarrow>
   closeCalls (intervalCallback h st) = closeCalls st \<and>
   statusCalls (intervalCallback h st) = statusCalls st"
  by (simp add: intervalCallback_def Let_def tryAutoClose_disabled split: option.splits)

lemma callbacks_disabled:
  "autoClose (options st) \<le> 0 \<Longrightarrow>
   closeCalls (foldl (\<lambda>s h. intervalCallback h s) st hs) = closeCalls st \<and>
   statusCalls (foldl (\<lambda>s h. intervalCallback h s) st hs) = statusCalls st"
  by (induction hs arbitrary: st) (simp_all add: intervalCallback_disabled)

lemma timerCall_disabled:
  assumes "autoClose (options st) \<le> 0"
  shows "closeCalls (timerCall c st) = closeCalls st \<and>
    statusCalls (timerCall c st) = statusCalls st"
proof (cases c)
  case (Event i)
  then show ?thesis
    using assms by (cases i) (simp_all add: deliver_def tick_def callbacks_disabled)
qed (simp_all add: tryAutoClose_disabled [OF assms])

lemma timerCall_options: "options (timerCall c st) = options st"
  by (cases c) simp_all

lemma timerRun_disabled:
  "autoClose (options st) \<le> 0 \<Longrightarrow>
   closeCalls (timerRun cs st) = closeCalls st \<and> statusCalls (timerRun cs st) = statusCalls st"
  unfolding timerRun_def
  by (induction cs arbitrary: st) (simp_all add: timerCall_disabled timerCall_options)

lemma tick_idle: "intervals st = [] \<Longrightarrow> tick st = st"
  by (simp add: tick_def)

lemma tick_single: "intervals st = [(h, r)] \<Longrightarrow> tick st = intervalCallback h st"
  by (simp add: tick_def)

lemma intervalCallback_count:
  "intervals st = [(h, r)] \<Longrightarrow> \<not> isClosed st \<Longrightarrow> 1 < r \<Longrightarrow>
   intervalCallback h st = st\<lparr>intervals := [(h, r - 1)]\<rparr>"
  by (simp add: intervalCallback_def Let_def)

lemma intervalCallback_fire:
  "intervals st = [(h, r)] \<Longrightarrow> autoCloseInterval st = Some h \<Longrightarrow> \<not> isClosed st \<Longrightarrow>
   r \<le> 1 \<Longrightarrow> 0 < autoClose (options st) \<Longrightarrow>
   intervalCallback h st =
     (notify ''autocloseCalled'' (st\<lparr>intervals := [], autoCloseInterval := None\<rparr>))
       \<lparr>closeCalls := Suc (closeCalls st)\<rparr>"
  by (simp add: intervalCallback_def Let_def tryAutoClose_def cancelAutoClose_def notify_def)

lemma startAutoClose_counting:
  "0 < autoClose (options st) \<Longrightarrow> autoCloseInterval st = None \<Longrightarrow> intervals st = [] \<Longrightarrow>
   startAutoClose st = counting st ((autoClose (options st) + 500) div 1000)"
  by (simp add: startAutoClose_def counting_def Let_def)

lemma tick_counting:
  "\<not> isClosed st \<Longrightarrow> 1 < r \<Longrightarrow> tick (counting st r) = counting st (r - 1)"
  by (simp add: tick_single [of _ "nextInterval st" r] intervalCallback_count [of _ "nextInterval st" r]
      counting_def)

lemma tick_counting_fire:
  "\<not> isClosed st \<Longrightarrow> r \<le> 1 \<Longrightarrow> 0 < autoClose (options st) \<Longrightarrow>
   autoCloseInterval st = None \<Longrightarrow> intervals st = [] \<Longrightarrow>
   tick (counting st r) = fired st"
  by (simp add: tick_single [of _ "nextInterval st" r]
      intervalCallback_fire [of _ "nextInterval st" r] counting_def fired_def notify_def)

lemma tick_fired:
  "intervals st = [] \<Longrightarrow> tick (fired st) = fired st"
  by (simp add: tick_idle fired_def)

lemma ticks_counting:
  "\<not> isClosed st \<Longrightarrow> int n < r \<Longrightarrow> (tick ^^ n) (counting st r) = counting st (r - int n)"
proof (induction n)
  case 0
  then show ?case by simp
next
  case (Suc n)
  then have "(tick ^^ n) (counting st r) = counting st (r - int n)" by simp
  moreover have "tick (counting st (r - int n)) = counting st (r - int n - 1)"
    using Suc.prems by (intro tick_counting) simp_all
  ultimately show ?case by (simp add: algebra_simps)
qed

lemma ticks_fired:
  "intervals st = [] \<Longrightarrow> (tick ^^ n) (fired st) = fired st"
  by (induction n) (simp_all add: tick_fired)

lemma ticks_fire:
  assumes "\<not> isClosed st" "0 < autoClose (options st)" "autoCloseInterval st = None"
    "intervals st = []" "0 < r" "nat r \<le> n"
  shows "(tick ^^ n) (counting st r) = fired st"
proof -
  obtain m where m: "nat r = Suc m" using assms(5) by (cases "nat r") auto
  then obtain k where n: "n = k + Suc m" using assms(6)
    by (metis le_Suc_ex add.commute)
  have a: "(tick ^^ m) (counting st r) = counting st (r - int m)"
    using assms(1) m by (intro ticks_counting) simp_all
  have b: "tick (counting st (r - int m)) = fired st"
    using assms m by (intro tick_counting_fire) simp_all
  have "(tick ^^ n) (counting st r) = (tick ^^ k) ((tick ^^ Suc m) (counting st r))"
    unfolding n by (simp only: funpow_add o_apply)
  also have "(tick ^^ Suc m) (counting st r) = fired st"
    using a b by simp
  finally show ?thesis using assms(4) by (simp add: ticks_fired)
qed

subsection \<open>One iteration of the scan loop\<close>

lemma keeps_refl: "keeps st st"
  by (simp add: keeps_def)

lemma keeps_trans: "keeps a b \<Longrightarrow> keeps b c \<Longrightarrow> keeps a c"
  by (simp add: keeps_def)

lemma keeps_suspend: "keeps st (suspend st)"
  by (simp add: keeps_def timerConsistent_suspend)

lemma keeps_notify: "keeps st (notify s st)"
  by (simp add: keeps_def)

lemma keeps_start: "keeps st (startAutoClose st)"
  by (simp add: keeps_def timerConsistent_start)

lemma keeps_cancel: "keeps st (cancelAutoClose st)"
  by (simp add: keeps_def timerConsistent_cancel)

lemma keeps_try: "keeps st (tryAutoClose st)"
  by (simp add: keeps_def timerConsistent_try)

lemma keeps_qrCalls: "keeps st (st\<lparr>qrCalls := x\<rparr>)"
  by (simp add: keeps_def timerConsistent_def)

lemma getQrCode_result: "fst (getQrCode a st) = qrAnswer a"
  by (simp add: getQrCode_def qrAnswer_def Let_def split: option.splits)

lemma getQrCode_keeps: "keeps st (snd (getQrCode a st))"
  by (auto simp: getQrCode_def Let_def split: option.splits
      intro: keeps_suspend keeps_trans [OF keeps_suspend keeps_suspend])

lemma getQrCode_qrCalls: "qrCalls (snd (getQrCode a st)) = qrCalls st"
  by (simp add: getQrCode_def Let_def split: option.splits)

lemma getQrCode_split:
  "getQrCode a st = (qrAnswer a, snd (getQrCode a st))"
  by (rule prod_eqI) (simp_all add: getQrCode_result)

lemma scanLoop_leave:
  assumes "scanned a = None"
  shows "\<exists>st1. scanLoop (a # as) c l n st = Returned ((l, n), st1) \<and>
           qrCalls st1 = qrCalls st \<and> keeps st st1"
proof (cases "needsToScan a \<noteq> Some True")
  case True
  then show ?thesis
    by (simp add: Let_def keeps_suspend)
next
  case False
  have k: "keeps st (snd (getQrCode a (suspend st)))"
    by (rule keeps_trans [OF keeps_suspend getQrCode_keeps])
  have q: "qrCalls (snd (getQrCode a (suspend st))) = qrCalls st"
    by (simp add: getQrCode_qrCalls)
  from False assms have "qrAnswer a = None \<or> (\<exists>r. qrAnswer a = Some r \<and> urlCode r = [])"
    by (auto simp: scanned_def split: option.splits if_splits)
  then show ?thesis
    using False k q
    by (subst scanLoop.simps, subst getQrCode_split) (auto simp: Let_def)
qed

lemma scanLoop_same:
  assumes "scanned a = Some r" "l = Some (urlCode r)"
  shows "\<exists>st1. scanLoop (a # as) c l n st = scanLoop as c l n st1 \<and>
           qrCalls st1 = qrCalls st \<and> keeps st st1"
proof -
  have k: "keeps st (suspend (snd (getQrCode a (suspend st))))"
    by (rule keeps_trans [OF keeps_trans [OF keeps_suspend getQrCode_keeps] keeps_suspend])
  have q: "qrCalls (suspend (snd (getQrCode a (suspend st)))) = qrCalls st"
    by (simp add: getQrCode_qrCalls)
  from assms have "needsToScan a = Some True" "qrAnswer a = Some r" "urlCode r \<noteq> []"
    by (auto simp: scanned_def split: option.splits if_splits)
  then show ?thesis
    using assms(2) k q
    by (subst scanLoop.simps, subst getQrCode_split) (auto simp: Let_def)
qed

lemma scanLoop_change:
  assumes "scanned a = Some r" "l \<noteq> Some (urlCode r)"
  shows "\<exists>st1 qr. scanLoop (a # as) c l n st = scanLoop as c (Some (urlCode r)) (Suc n) st1 \<and>
           qrCalls st1 = qrCalls st @
             (if c then [(base64Image r, qr, Suc n, urlCode r, this_session st)] else []) \<and>
           keeps st st1"
proof -
  define st2 where "st2 = snd (getQrCode a (suspend st))"
  define render where "render \<longleftrightarrow> logQR (options st2) \<or> c"
  define qr where "qr = (if render then asciiQr a else [])"
  define st3 where "st3 = (if render then suspend st2 else st2)"
  define st4 where "st4 = (if c then st3\<lparr>qrCalls := qrCalls st3 @
      [(base64Image r, qr, Suc n, urlCode r, this_session st3)]\<rparr> else st3)"
  have k2: "keeps st st2"
    unfolding st2_def by (rule keeps_trans [OF keeps_suspend getQrCode_keeps])
  have k3: "keeps st st3"
    unfolding st3_def using k2 keeps_trans [OF k2 keeps_suspend] by (cases render) simp_all
  have k4: "keeps st st4"
    unfolding st4_def using k3 keeps_trans [OF k3 keeps_qrCalls] by (cases c) simp_all
  have k: "keeps st (suspend st4)"
    by (rule keeps_trans [OF k4 keeps_suspend])
  have s3: "this_session st3 = this_session st"
    using k3 by (simp add: keeps_def)
  have q3: "qrCalls st3 = qrCalls st"
    by (simp add: st3_def st2_def getQrCode_qrCalls)
  have q: "qrCalls (suspend st4) = qrCalls st @
      (if c then [(base64Image r, qr, Suc n, urlCode r, this_session st)] else [])"
    using s3 q3 by (simp add: st4_def)
  from assms have a: "needsToScan a = Some True" "qrAnswer a = Some r" "urlCode r \<noteq> []"
    by (auto simp: scanned_def split: option.splits if_splits)
  have "scanLoop (a # as) c l n st = scanLoop as c (Some (urlCode r)) (Suc n) (suspend st4)"
    using a assms(2)
    by (subst scanLoop.simps, subst getQrCode_split)
      (simp add: Let_def st4_def st3_def qr_def render_def st2_def)
  then show ?thesis using q k by blast
qed

subsection \<open>The polling loops\<close>

lemma remdups_adj_head: "remdups_adj (d # cs) = d # tl (remdups_adj (d # cs))"
proof -
  have "remdups_adj (d # cs) \<noteq> []" by simp
  moreover have "hd (remdups_adj (d # cs)) = d" by (simp add: hd_remdups_adj)
  ultimately show ?thesis by (metis list.collapse)
qed

lemma changes_Nil: "changes l [] = []"
  by (simp add: changes_def split: option.splits)

lemma changes_same: "changes (Some c) (c # cs) = changes (Some c) cs"
  by (simp add: changes_def)

lemma changes_diff: "l \<noteq> Some d \<Longrightarrow> changes l (d # cs) = d # changes (Some d) cs"
proof (cases l)
  case None
  then show ?thesis using remdups_adj_head [of d cs] by (simp add: changes_def)
next
  case (Some c)
  assume "l \<noteq> Some d"
  with Some have "c \<noteq> d" by simp
  then show ?thesis using Some remdups_adj_head [of d cs] by (simp add: changes_def)
qed

lemma scanLoop_keeps:
  "keeps st (snd (reached (scanLoop as c l n st)))"
proof (induction as arbitrary: l n st)
  case Nil
  then show ?case by (simp add: keeps_refl)
next
  case (Cons a as)
  show ?case
  proof (cases "scanned a")
    case None
    from scanLoop_leave [OF None, of as c l n st] show ?thesis by auto
  next
    case (Some q)
    show ?thesis
    proof (cases "l = Some (urlCode q)")
      case True
      from scanLoop_same [OF Some True, of as c n st]
      obtain st1 where "scanLoop (a # as) c l n st = scanLoop as c l n st1" "keeps st st1"
        by blast
      then show ?thesis using Cons.IH [of st1 l n] keeps_trans by auto
    next
      case False
      from scanLoop_change [OF Some False, of as c n st]
      obtain st1 where
        "scanLoop (a # as) c l n st = scanLoop as c (Some (urlCode q)) (Suc n) st1" "keeps st st1"
        by blast
      then show ?thesis
        using Cons.IH [of st1 "Some (urlCode q)" "Suc n"] keeps_trans by auto
    qed
  qed
qed

lemma scanLoop_returns:
  "leavesScan as \<Longrightarrow> \<exists>r st'. scanLoop as c l n st = Returned (r, st')"
proof (induction as arbitrary: l n st)
  case Nil
  then show ?case by (simp add: leavesScan_def)
next
  case (Cons a as)
  show ?case
  proof (cases "scanned a")
    case None
    from scanLoop_leave [OF None, of as c l n st] show ?thesis by auto
  next
    case (Some q)
    then have rest: "leavesScan as" using Cons.prems by (simp add: leavesScan_def)
    show ?thesis
    proof (cases "l = Some (urlCode q)")
      case True
      from scanLoop_same [OF Some True, of as c n st]
      obtain st1 where "scanLoop (a # as) c l n st = scanLoop as c l n st1" by blast
      then show ?thesis using Cons.IH [OF rest, of l n st1] by simp
    next
      case False
      from scanLoop_change [OF Some False, of as c n st]
      obtain st1 where
        "scanLoop (a # as) c l n st = scanLoop as c (Some (urlCode q)) (Suc n) st1" by blast
      then show ?thesis using Cons.IH [OF rest, of "Some (urlCode q)" "Suc n" st1] by simp
    qed
  qed
qed

lemma scanLoop_pending:
  "\<not> leavesScan as \<Longrightarrow> \<exists>x. scanLoop as c l n st = Polling x"
proof (induction as arbitrary: l n st)
  case Nil
  then show ?case by simp
next
  case (Cons a as)
  then obtain q where q: "scanned a = Some q" and rest: "\<not> leavesScan as"
    by (auto simp: leavesScan_def)
  show ?case
  proof (cases "l = Some (urlCode q)")
    case True
    from scanLoop_same [OF q True, of as c n st]
    obtain st1 where "scanLoop (a # as) c l n st = scanLoop as c l n st1" by blast
    then show ?thesis using Cons.IH [OF rest, of l n st1] by simp
  next
    case False
    from scanLoop_change [OF q False, of as c n st]
    obtain st1 where
      "scanLoop (a # as) c l n st = scanLoop as c (Some (urlCode q)) (Suc n) st1" by blast
    then show ?thesis using Cons.IH [OF rest, of "Some (urlCode q)" "Suc n" st1] by simp
  qed
qed

lemma scanLoop_returned: "returned (scanLoop as c l n st) \<longleftrightarrow> leavesScan as"
proof (cases "leavesScan as")
  case True
  then show ?thesis
    using scanLoop_returns [of as c l n st] by (auto simp: returned_def)
next
  case False
  then show ?thesis
    using scanLoop_pending [of as c l n st] by (auto simp: returned_def)
qed

lemma waitForInChat_result:
  "waitForInChat as st = Some (r, st') \<Longrightarrow> r \<noteq> Some False \<and> keeps st st'"
proof (induction as arbitrary: st)
  case Nil
  then show ?case by simp
next
  case (Cons a as)
  show ?case
  proof (cases "a = Some False")
    case True
    then have "waitForInChat as (suspend (suspend st)) = Some (r, st')"
      using Cons.prems by (simp add: Let_def)
    from Cons.IH [OF this] show ?thesis
      using keeps_trans [OF keeps_trans [OF keeps_suspend keeps_suspend]] by blast
  next
    case False
    then show ?thesis using Cons.prems by (auto simp: Let_def keeps_suspend)
  qed
qed

lemma waitForInChat_returns:
  "list_ex (\<lambda>a. a \<noteq> Some False) as \<Longrightarrow> \<exists>r st'. waitForInChat as st = Some (r, st')"
  by (induction as arbitrary: st) (auto simp: Let_def)

lemma scanLoop_reports:
  "reached (scanLoop as c l n st) = ((l', n'), st') \<Longrightarrow>
   n' = n + length (changes l (fetchedCodes as)) \<and>
   (\<exists>new. qrCalls st' = qrCalls st @ new \<and>
      (if c then map qrUrlCode new = changes l (fetchedCodes as) \<and>
                 map qrAttempt new = [Suc n ..< Suc n']
       else new = []))"
proof (induction as arbitrary: l n st)
  case Nil
  then show ?case by (simp add: changes_Nil)
next
  case (Cons a as)
  show ?case
  proof (cases "scanned a")
    case None
    from scanLoop_leave [OF None, of as c l n st] Cons.prems
    show ?thesis using None by (auto simp: changes_Nil)
  next
    case (Some q)
    show ?thesis
    proof (cases "l = Some (urlCode q)")
      case True
      from scanLoop_same [OF Some True, of as c n st]
      obtain st1 where st1: "scanLoop (a # as) c l n st = scanLoop as c l n st1"
        "qrCalls st1 = qrCalls st"
        by blast
      have run: "reached (scanLoop as c l n st1) = ((l', n'), st')"
        using st1(1) Cons.prems by simp
      have eq: "changes l (fetchedCodes (a # as)) = changes l (fetchedCodes as)"
        using Some True by (simp add: changes_same)
      from Cons.IH [OF run, unfolded st1(2)] show ?thesis
        unfolding eq .
    next
      case False
      from scanLoop_change [OF Some False, of as c n st]
      obtain st1 qr where st1:
        "scanLoop (a # as) c l n st = scanLoop as c (Some (urlCode q)) (Suc n) st1"
        "qrCalls st1 = qrCalls st @
           (if c then [(base64Image q, qr, Suc n, urlCode q, this_session st)] else [])"
        by blast
      have run: "reached (scanLoop as c (Some (urlCode q)) (Suc n) st1) = ((l', n'), st')"
        using st1(1) Cons.prems by simp
      have ih: "n' = Suc n + length (changes (Some (urlCode q)) (fetchedCodes as)) \<and>
          (\<exists>new. qrCalls st' = qrCalls st1 @ new \<and>
            (if c then map qrUrlCode new = changes (Some (urlCode q)) (fetchedCodes as) \<and>
                       map qrAttempt new = [Suc (Suc n) ..< Suc n']
             else new = []))"
        by (rule Cons.IH [OF run])
      then have n': "n' = Suc n + length (changes (Some (urlCode q)) (fetchedCodes as))"
        by (rule conjunct1)
      from ih obtain new where new: "qrCalls st' = qrCalls st1 @ new"
        and shape: "if c then map qrUrlCode new = changes (Some (urlCode q)) (fetchedCodes as) \<and>
                       map qrAttempt new = [Suc (Suc n) ..< Suc n']
             else new = []"
        by (elim conjE exE)
      have ch: "changes l (fetchedCodes (a # as)) =
          urlCode q # changes (Some (urlCode q)) (fetchedCodes as)"
        using Some False by (simp add: changes_diff)
      have count: "n' = n + length (changes l (fetchedCodes (a # as)))"
        unfolding ch using n' by simp
      have lt: "Suc n < Suc n'" using n' by simp
      show ?thesis
      proof (cases c)
        case True
        let ?call = "(base64Image q, qr, Suc n, urlCode q, this_session st)"
        have 1: "qrCalls st' = qrCalls st @ (?call # new)"
          using new st1(2) True by simp
        have 2: "map qrUrlCode (?call # new) = changes l (fetchedCodes (a # as))"
          unfolding ch using shape True by (simp add: qrUrlCode_def)
        have "[Suc n ..< Suc n'] = Suc n # [Suc (Suc n) ..< Suc n']"
          using lt by (rule upt_conv_Cons)
        then have 3: "map qrAttempt (?call # new) = [Suc n ..< Suc n']"
          using shape True by (simp add: qrAttempt_def)
        have "qrCalls st' = qrCalls st @ (?call # new) \<and>
            (if c then map qrUrlCode (?call # new) = changes l (fetchedCodes (a # as)) \<and>
                       map qrAttempt (?call # new) = [Suc n ..< Suc n']
             else ?call # new = [])"
          using 1 2 3 True by simp
        then have "\<exists>new. qrCalls st' = qrCalls st @ new \<and>
            (if c then map qrUrlCode new = changes l (fetchedCodes (a # as)) \<and>
                       map qrAttempt new = [Suc n ..< Suc n']
             else new = [])"
          by (rule exI)
        with count show ?thesis by (rule conjI)
      next
        case False
        then have "new = []" using shape by simp
        then have "qrCalls st' = qrCalls st @ [] \<and>
            (if c then map qrUrlCode [] = changes l (fetchedCodes (a # as)) \<and>
                       map qrAttempt [] = [Suc n ..< Suc n']
             else [] = ([] :: (string \<times> string \<times> nat \<times> string \<times> string) list))"
          using new st1(2) False by simp
        then have "\<exists>new. qrCalls st' = qrCalls st @ new \<and>
            (if c then map qrUrlCode new = changes l (fetchedCodes (a # as)) \<and>
                       map qrAttempt new = [Suc n ..< Suc n']
             else new = [])"
          by (rule exI)
        with count show ?thesis by (rule conjI)
      qed
    qed
  qed
qed

lemma scanLoop_reports_total:
  "snd (fst (reached (scanLoop as c l n st))) = n + length (changes l (fetchedCodes as)) \<and>
   (\<exists>new. qrCalls (snd (reached (scanLoop as c l n st))) = qrCalls st @ new \<and>
      (if c then map qrUrlCode new = changes l (fetchedCodes as) \<and>
                 map qrAttempt new = [Suc n ..< Suc (n + length (changes l (fetchedCodes as)))]
       else new = []))"
proof -
  obtain l' n' st' where r: "reached (scanLoop as c l n st) = ((l', n'), st')"
    by (metis surj_pair)
  note rep = scanLoop_reports [OF r]
  from rep have n': "n' = n + length (changes l (fetchedCodes as))"
    by (rule conjunct1)
  from rep have ex: "\<exists>new. qrCalls st' = qrCalls st @ new \<and>
      (if c then map qrUrlCode new = changes l (fetchedCodes as) \<and>
                 map qrAttempt new = [Suc n ..< Suc n']
       else new = [])"
    by (rule conjunct2)
  have 1: "snd (fst (reached (scanLoop as c l n st))) = n'"
    and 2: "snd (reached (scanLoop as c l n st)) = st'"
    by (simp_all add: r)
  show ?thesis
    unfolding 1 2 using n' ex unfolding n' by (rule conjI)
qed

text \<open>
  Claim C5: in \<^verbatim>\<open>waitForQrCodeScan\<close> the attempt counter only grows, it advances exactly
  when the fetched \<^verbatim>\<open>urlCode\<close> differs from the one seen before, and the QR observer is
  called exactly once for each advance. For every sequence of recorded iterations, and the
  loop started with the last code \<open>l\<close> and the counter \<open>n\<close>, in the state that the loop has
  reached (it has left, or it is still polling after the last recorded iteration): the
  counter is \<open>n\<close> plus the number of changes in the sequence of fetched codes, and the calls
  that an observer has received are one per change, in order, carrying the changed codes
  and the attempts \<open>n + 1\<close>, \<open>n + 2\<close>, ... up to the counter; without an observer no call
  is made. The loop leaves exactly when some recorded iteration makes it leave; the method
  then returns, and its observer has received one call for each code that differs from its
  predecessor in the fetched sequence, with the attempts 1, 2, ...
\<close>

theorem waitForQrCodeScan_attempts:
  "snd (fst (reached (scanLoop as c l n st))) = n + length (changes l (fetchedCodes as)) \<and>
   (\<exists>new. qrCalls (snd (reached (scanLoop as c l n st))) = qrCalls st @ new \<and>
      (if c then map qrUrlCode new = changes l (fetchedCodes as) \<and>
                 map qrAttempt new = [Suc n ..< Suc (n + length (changes l (fetchedCodes as)))]
       else new = [])) \<and>
   (returned (scanLoop as c l n st) \<longleftrightarrow> leavesScan as) \<and>
   (leavesScan as \<longrightarrow>
      (\<exists>st'. waitForQrCodeScan as c st = Some st' \<and>
         (\<exists>new. qrCalls st' = qrCalls st @ new \<and>
            (if c then map qrUrlCode new = remdups_adj (fetchedCodes as) \<and>
                       map qrAttempt new = [1 ..< Suc (length (remdups_adj (fetchedCodes as)))]
             else new = [])))) \<and>
   (\<not> leavesScan as \<longrightarrow> waitForQrCodeScan as c st = None)"
proof -
  have meth: "\<exists>st'. waitForQrCodeScan as c st = Some st' \<and>
         (\<exists>new. qrCalls st' = qrCalls st @ new \<and>
            (if c then map qrUrlCode new = remdups_adj (fetchedCodes as) \<and>
                       map qrAttempt new = [1 ..< Suc (length (remdups_adj (fetchedCodes as)))]
             else new = []))"
    if "leavesScan as"
  proof -
    from scanLoop_returns [OF that, of c None 0 st]
    obtain r st' where run: "scanLoop as c None 0 st = Returned (r, st')" by blast
    then have w: "waitForQrCodeScan as c st = Some st'"
      by (simp add: waitForQrCodeScan_def)
    have ch: "changes None (fetchedCodes as) = remdups_adj (fetchedCodes as)"
      by (simp add: changes_def)
    have st': "snd (reached (scanLoop as c None 0 st)) = st'"
      by (simp add: run)
    from scanLoop_reports_total [of as c None 0 st, unfolded ch st']
    have "\<exists>new. qrCalls st' = qrCalls st @ new \<and>
            (if c then map qrUrlCode new = remdups_adj (fetchedCodes as) \<and>
                       map qrAttempt new =
                         [Suc 0 ..< Suc (0 + length (remdups_adj (fetchedCodes as)))]
             else new = [])"
      by (rule conjunct2)
    then have "\<exists>new. qrCalls st' = qrCalls st @ new \<and>
            (if c then map qrUrlCode new = remdups_adj (fetchedCodes as) \<and>
                       map qrAttempt new = [1 ..< Suc (length (remdups_adj (fetchedCodes as)))]
             else new = [])"
      unfolding One_nat_def add_0 .
    with w show ?thesis by blast
  qed
  have pend: "waitForQrCodeScan as c st = None" if "\<not> leavesScan as"
    using scanLoop_pending [OF that, of c None 0 st] by (auto simp: waitForQrCodeScan_def)
  show ?thesis
    using scanLoop_reports_total [of as c l n st] scanLoop_returned [of as c l n st] meth pend
    by blast
qed

text \<open>
  C5 on the scrape sequence A, A, B, B, B: after these five iterations the counter is at 2
  and the observer has received exactly two calls, for A with attempt 1 and for B with
  attempt 2. When the page then asks for no scan, the method returns, with these two calls.
\<close>

theorem waitForQrCodeScan_attempts_witness:
  "fetchedCodes scrapeAABBB = [''A'', ''A'', ''B'', ''B'', ''B''] \<and>
   snd (fst (reached (scanLoop scrapeAABBB True None 0
      (exampleHost 60000 True [[Tick], [PageClose]])))) = 2 \<and>
   map qrUrlCode (qrCalls (snd (reached (scanLoop scrapeAABBB True None 0
      (exampleHost 60000 True [[Tick], [PageClose]]))))) = [''A'', ''B''] \<and>
   map qrAttempt (qrCalls (snd (reached (scanLoop scrapeAABBB True None 0
      (exampleHost 60000 True [[Tick], [PageClose]]))))) = [1, 2] \<and>
   leavesScan scanAABBB \<and>
   (\<exists>st'. waitForQrCodeScan scanAABBB True (exampleHost 60000 True [[Tick], [PageClose]])
       = Some st' \<and>
     map qrUrlCode (qrCalls st') = [''A'', ''B''] \<and> map qrAttempt (qrCalls st') = [1, 2])"
proof -
  let ?host = "exampleHost 60000 True [[Tick], [PageClose]]"
  have leaves: "leavesScan scanAABBB"
    by (simp add: leavesScan_def scanned_def qrAnswer_def host_evals)
  have codes: "fetchedCodes scanAABBB = [''A'', ''A'', ''B'', ''B'', ''B'']"
    "fetchedCodes scrapeAABBB = [''A'', ''A'', ''B'', ''B'', ''B'']"
    by (simp_all add: scanned_def qrAnswer_def host_evals)
  have none: "qrCalls ?host = []" by (simp add: host_evals)
  from waitForQrCodeScan_attempts [of scrapeAABBB True None 0 ?host]
  have polling: "snd (fst (reached (scanLoop scrapeAABBB True None 0 ?host))) = 2 \<and>
      map qrUrlCode (qrCalls (snd (reached (scanLoop scrapeAABBB True None 0 ?host))))
        = [''A'', ''B''] \<and>
      map qrAttempt (qrCalls (snd (reached (scanLoop scrapeAABBB True None 0 ?host))))
        = [1, 2]"
    by (auto simp: codes none changes_def)
  from waitForQrCodeScan_attempts [of scanAABBB True None 0 ?host] leaves
  have "\<exists>st'. waitForQrCodeScan scanAABBB True ?host = Some st' \<and>
     map qrUrlCode (qrCalls st') = [''A'', ''B''] \<and> map qrAttempt (qrCalls st') = [1, 2]"
    by (auto simp: codes none)
  with polling leaves codes show ?thesis by simp
qed

subsection \<open>The login sequence\<close>

lemma waitForQrCodeScan_keeps:
  "waitForQrCodeScan as c st = Some st' \<Longrightarrow> keeps st st'"
  using scanLoop_keeps [of st as c None 0]
  by (auto simp: waitForQrCodeScan_def split: progress.splits)

lemma waitForQrCodeScan_returns:
  "leavesScan as \<Longrightarrow> \<exists>st'. waitForQrCodeScan as c st = Some st'"
  using scanLoop_returns [of as c None 0 st] by (auto simp: waitForQrCodeScan_def)

lemma loginScan_keeps:
  assumes "loginScan env c a st = Some (r, st')"
  shows "keeps st st'"
proof (cases "a = Some False")
  case True
  then obtain st1 where scan:
      "waitForQrCodeScan (scanAnswers env) c (notify ''notLogged'' st) = Some st1"
    using assms by (auto simp: loginScan_def split: option.splits)
  have k1: "keeps st st1"
    by (rule keeps_trans [OF keeps_notify waitForQrCodeScan_keeps [OF scan]])
  have k2: "keeps st (suspend (suspend st1))"
    by (rule keeps_trans [OF keeps_trans [OF k1 keeps_suspend] keeps_suspend])
  have "keeps st (notify s (suspend (suspend st1)))" for s
    by (rule keeps_trans [OF k2 keeps_notify])
  moreover have "keeps st (tryAutoClose (notify s (suspend (suspend st1))))" for s
    by (rule keeps_trans [OF keeps_trans [OF k2 keeps_notify] keeps_try])
  ultimately show ?thesis
    using assms True scan by (auto simp: loginScan_def Let_def split: if_splits)
next
  case False
  then show ?thesis
    using assms by (auto simp: loginScan_def keeps_notify keeps_refl split: if_splits)
qed

lemma loginScan_authenticated:
  "loginScan env c a st = Some (Inr a', st') \<Longrightarrow> a' \<noteq> Some False"
  by (auto simp: loginScan_def Let_def split: if_splits option.splits)

lemma loginScan_thrown:
  "loginScan env c a st = Some (Inl e, st') \<Longrightarrow> e = Reason ''Failed to read the QRCode''"
  by (auto simp: loginScan_def Let_def split: if_splits option.splits)

lemma loginFinish_connected:
  assumes "loginFinish env a st = Some (Inr b, st')"
  shows "b \<and> (\<exists>st1. keeps st st1 \<and> st' = notify ''inChat'' (cancelAutoClose st1))"
proof -
  from assms have a: "a = Some True"
    by (auto simp: loginFinish_def split: if_splits)
  then obtain inChat st1 where w:
      "waitForInChat (insideChat env) (suspend (startAutoClose (cancelAutoClose st)))
         = Some (inChat, st1)"
    using assms by (auto simp: loginFinish_def split: option.splits)
  have "keeps (suspend (startAutoClose (cancelAutoClose st))) st1"
    using waitForInChat_result [OF w] by simp
  then have k: "keeps st st1"
    using keeps_trans [OF keeps_trans [OF keeps_trans [OF keeps_cancel keeps_start] keeps_suspend]]
    by blast
  from assms a w have "b \<and> st' = notify ''inChat'' (cancelAutoClose st1)"
    by (auto simp: loginFinish_def split: if_splits)
  with k show ?thesis by blast
qed

lemma loginFinish_thrown:
  "loginFinish env a st = Some (Inl e, st') \<Longrightarrow>
     (a = Some True \<and> e = Reason ''Phone not connected'') \<or>
     (a = Some False \<and> e = Reason ''Not logged'') \<or>
     (a = None \<and> e = Reason ''Unknow error'')"
  by (cases a) (auto simp: loginFinish_def split: if_splits option.splits)

lemma waitForLogin_started:
  "waitForLogin env c sf st =
     (case loginScan env c (authFirst env) (started sf st) of
        None \<Rightarrow> None
      | Some (Inl e, st4) \<Rightarrow> Some (Inl e, st4)
      | Some (Inr a', st4) \<Rightarrow> loginFinish env a' st4)"
  by (simp add: waitForLogin_def started_def Let_def)

lemma started_fields:
  "this_session (started sf st) = this_session st"
  "statusFind (started sf st) = sf"
  "timerConsistent st \<Longrightarrow> timerConsistent (started sf st)"
proof -
  show "this_session (started sf st) = this_session st"
    by (simp add: started_def waitForPageLoad_def)
  show "statusFind (started sf st) = sf"
    by (simp add: started_def waitForPageLoad_def)
  assume "timerConsistent st"
  then have "timerConsistent (st\<lparr>statusFind := sf\<rparr>)"
    by (simp add: timerConsistent_def)
  then show "timerConsistent (started sf st)"
    by (simp add: started_def waitForPageLoad_def timerConsistent_start timerConsistent_suspend)
qed

lemma loginFinish_keeps:
  assumes "loginFinish env a st = Some (r, st')"
  shows "keeps st st'"
proof (cases "a = Some True")
  case True
  then obtain inChat st1 where w:
      "waitForInChat (insideChat env) (suspend (startAutoClose (cancelAutoClose st)))
         = Some (inChat, st1)"
    using assms by (auto simp: loginFinish_def split: option.splits)
  have "keeps (suspend (startAutoClose (cancelAutoClose st))) st1"
    using waitForInChat_result [OF w] by simp
  then have k: "keeps st st1"
    using keeps_trans [OF keeps_trans [OF keeps_trans [OF keeps_cancel keeps_start] keeps_suspend]]
    by blast
  have "keeps st (tryAutoClose (notify s st1))" for s
    by (rule keeps_trans [OF keeps_trans [OF k keeps_notify] keeps_try])
  moreover have "keeps st (notify s (cancelAutoClose st1))" for s
    by (rule keeps_trans [OF keeps_trans [OF k keeps_cancel] keeps_notify])
  ultimately show ?thesis
    using assms True w by (auto simp: loginFinish_def split: if_splits)
next
  case False
  then show ?thesis
    using assms by (auto simp: loginFinish_def keeps_try split: if_splits)
qed

lemma waitForLogin_consistent:
  assumes run: "waitForLogin env c sf st = Some (r, st')" and con: "timerConsistent st"
  shows "timerConsistent st'"
proof -
  obtain r0 st4 where scan: "loginScan env c (authFirst env) (started sf st) = Some (r0, st4)"
    using run by (auto simp: waitForLogin_started split: option.splits)
  have c4: "timerConsistent st4"
    using loginScan_keeps [OF scan] started_fields(3) [OF con] by (simp add: keeps_def)
  show ?thesis
  proof (cases r0)
    case (Inl e)
    then show ?thesis using run scan c4 by (simp add: waitForLogin_started)
  next
    case (Inr a')
    then have "loginFinish env a' st4 = Some (r, st')"
      using run scan by (simp add: waitForLogin_started)
    from loginFinish_keeps [OF this] c4 show ?thesis by (simp add: keeps_def)
  qed
qed

lemma tryAutoClose_statusCalls:
  "set (statusCalls st) \<subseteq> set (statusCalls (tryAutoClose st))"
  by (auto simp: tryAutoClose_def Let_def notify_def)

lemma waitForInChat_true:
  "\<exists>st'. waitForInChat (replicate k (Some False) @ Some True # rest) st = Some (Some True, st')"
  by (induction k arbitrary: st) (simp_all add: Let_def)

lemma waitForLogin_connects:
  assumes auth: "authFirst env = Some True \<or>
      (authFirst env = Some False \<and> leavesScan (scanAnswers env) \<and>
       authAfterScan env = Some True)"
    and chat: "insideChat env = replicate k (Some False) @ Some True # rest"
  shows "\<exists>st'. waitForLogin env catchQR sf st = Some (Inr True, st')"
proof -
  have "\<exists>st4. loginScan env catchQR (authFirst env) (started sf st) = Some (Inr (Some True), st4)"
  proof (cases "authFirst env = Some True")
    case True
    then show ?thesis by (simp add: loginScan_def)
  next
    case False
    with auth have h: "authFirst env = Some False" "leavesScan (scanAnswers env)"
      "authAfterScan env = Some True" by simp_all
    obtain st1 where
      "waitForQrCodeScan (scanAnswers env) catchQR (notify ''notLogged'' (started sf st)) = Some st1"
      using waitForQrCodeScan_returns [OF h(2)] by blast
    then show ?thesis using h by (simp add: loginScan_def Let_def)
  qed
  then obtain st4 where
    scan: "loginScan env catchQR (authFirst env) (started sf st) = Some (Inr (Some True), st4)"
    by blast
  obtain st1 where
    "waitForInChat (insideChat env) (suspend (startAutoClose (cancelAutoClose st4)))
       = Some (Some True, st1)"
    unfolding chat using waitForInChat_true by blast
  then show ?thesis
    by (simp add: waitForLogin_started scan loginFinish_def)
qed

lemma tryAutoClose_effect:
  "statusCalls (tryAutoClose x) =
     statusCalls x @
     (if statusFind x \<and> 0 < autoClose (options x) \<and> \<not> isClosed x
      then [(''autocloseCalled'', this_session x)] else [])"
  "closeCalls (tryAutoClose x) =
     (if 0 < autoClose (options x) \<and> \<not> isClosed x then Suc (closeCalls x) else closeCalls x)"
  by (simp_all add: tryAutoClose_def cancelAutoClose_def notify_def Let_def)

lemma waitForLogin_indeterminate_run:
  assumes "authFirst env = Some False" "leavesScan (scanAnswers env)" "authAfterScan env = None"
  shows "\<exists>st1.
     waitForQrCodeScan (scanAnswers env) catchQR (notify ''notLogged'' (started sf st))
       = Some st1 \<and>
     this_session (suspend (suspend st1)) = this_session st \<and>
     statusFind (suspend (suspend st1)) = sf \<and>
     options (suspend (suspend st1)) = options st \<and>
     waitForLogin env catchQR sf st =
       Some (Inl (Reason ''Unknow error''),
         tryAutoClose (notify ''qrReadError'' (suspend (suspend st1))))"
proof -
  obtain st1 where scan:
      "waitForQrCodeScan (scanAnswers env) catchQR (notify ''notLogged'' (started sf st)) = Some st1"
    using waitForQrCodeScan_returns [OF assms(2)] by blast
  define st2 where "st2 = suspend (suspend st1)"
  have "keeps (started sf st) st2"
    unfolding st2_def
    by (rule keeps_trans [OF keeps_trans [OF keeps_trans
          [OF keeps_notify waitForQrCodeScan_keeps [OF scan]] keeps_suspend] keeps_suspend])
  moreover have "options (started sf st) = options st"
    by (simp add: started_def waitForPageLoad_def)
  ultimately have f: "this_session st2 = this_session st" "statusFind st2 = sf"
    "options st2 = options st"
    by (simp_all add: keeps_def started_fields)
  have ls: "loginScan env catchQR (authFirst env) (started sf st) =
      Some (Inr None, notify ''qrReadError'' st2)"
    using assms scan by (simp add: loginScan_def Let_def st2_def)
  have "waitForLogin env catchQR sf st =
      Some (Inl (Reason ''Unknow error''), tryAutoClose (notify ''qrReadError'' st2))"
    by (simp add: waitForLogin_started ls loginFinish_def)
  with f scan show ?thesis unfolding st2_def by blast
qed

text \<open>
  Claim C6: every run of \<^verbatim>\<open>waitForLogin\<close> that returns (the result is then \<^verbatim>\<open>true\<close>) has
  cleared the interval handle, no interval of the timer is left active, and the last
  status event the observer received is \<^verbatim>\<open>inChat\<close>. A status event is a call of the
  optional observer \<^verbatim>\<open>statusFind\<close>: it is received when an observer was passed.
\<close>

theorem waitForLogin_connected:
  assumes "waitForLogin env catchQR sf st = Some (Inr b, st')"
  shows "b \<and> autoCloseInterval st' = None \<and>
    (timerConsistent st \<longrightarrow> intervals st' = []) \<and>
    (sf \<longrightarrow> statusCalls st' \<noteq> [] \<and> last (statusCalls st') = (''inChat'', this_session st))"
proof -
  from assms obtain a' st4 where
    scan: "loginScan env catchQR (authFirst env) (started sf st) = Some (Inr a', st4)"
    and fin: "loginFinish env a' st4 = Some (Inr b, st')"
    by (auto simp: waitForLogin_started split: option.splits sum.splits)
  from loginFinish_connected [OF fin] obtain st1 where
    b: b and k1: "keeps st4 st1" and st': "st' = notify ''inChat'' (cancelAutoClose st1)"
    by blast
  have k: "keeps (started sf st) st1"
    by (rule keeps_trans [OF loginScan_keeps [OF scan] k1])
  then have f: "this_session st1 = this_session st" "statusFind st1 = sf"
    and c: "timerConsistent st \<Longrightarrow> timerConsistent st1"
    by (simp_all add: keeps_def started_fields)
  have "intervals st' = []" if "timerConsistent st"
    using c [OF that] by (simp add: st' cancelAutoClose_consistent)
  moreover have "autoCloseInterval st' = None"
    by (simp add: st')
  moreover have "statusCalls st' \<noteq> [] \<and> last (statusCalls st') = (''inChat'', this_session st)"
    if sf
    using that f by (simp add: st' notify_def)
  ultimately show ?thesis using b by blast
qed

text \<open>
  C6 on a run that scans a QR code, is authenticated, and is inside the chat at the
  second poll, with timer ticks in between.
\<close>

theorem waitForLogin_connected_witness:
  "\<exists>st'. waitForLogin (loginEnv (Some False) (Some True)) True True
            (exampleHost 60000 False [[], [Tick], [Tick, Tick]]) = Some (Inr True, st') \<and>
     autoCloseInterval st' = None \<and> intervals st' = [] \<and>
     last (statusCalls st') = (''inChat'', ''sales'')"
proof -
  let ?env = "loginEnv (Some False) (Some True)"
  let ?host = "exampleHost 60000 False [[], [Tick], [Tick, Tick]]"
  have "authFirst ?env = Some False \<and> leavesScan (scanAnswers ?env) \<and>
      authAfterScan ?env = Some True"
    by (simp add: leavesScan_def scanned_def qrAnswer_def host_evals)
  moreover have "insideChat ?env = replicate 1 (Some False) @ Some True # []"
    by (simp add: host_evals)
  ultimately obtain st' where run: "waitForLogin ?env True True ?host = Some (Inr True, st')"
    using waitForLogin_connects [of ?env 1 "[]" True True ?host] by blast
  have "timerConsistent ?host" "this_session ?host = ''sales''"
    by (simp_all add: timerConsistent_def host_evals)
  with waitForLogin_connected [OF run] run show ?thesis by auto
qed

text \<open>
  Claim C4, as the code has it: when the first probe says unauthenticated, the scan loop is
  left and the authentication probe after it is indeterminate, \<^verbatim>\<open>waitForLogin\<close> tells the
  status observer (when one was passed) \<^verbatim>\<open>qrReadError\<close>, falls through to the end of the
  method, calls \<^verbatim>\<open>tryAutoClose\<close> there and raises \<^verbatim>\<open>Unknow error\<close>. With \<open>st1\<close> the state in
  which the scan loop was left, the final state is that of \<^verbatim>\<open>tryAutoClose\<close> after the
  notification: the interval is cleared, and when \<^verbatim>\<open>autoClose\<close> is positive and the page
  is not closed, \<^verbatim>\<open>page.close()\<close> has been called once more and \<^verbatim>\<open>autocloseCalled\<close> is
  the status reported after \<^verbatim>\<open>qrReadError\<close>.
\<close>

theorem waitForLogin_indeterminate_after_scan:
  assumes "authFirst env = Some False" "leavesScan (scanAnswers env)" "authAfterScan env = None"
  shows "\<exists>st1 st'.
     waitForQrCodeScan (scanAnswers env) catchQR (notify ''notLogged'' (started sf st))
       = Some st1 \<and>
     waitForLogin env catchQR sf st = Some (Inl (Reason ''Unknow error''), st') \<and>
     st' = tryAutoClose (notify ''qrReadError'' (suspend (suspend st1))) \<and>
     autoCloseInterval st' = None \<and>
     statusCalls st' =
       statusCalls (suspend (suspend st1)) @
       (if sf then [(''qrReadError'', this_session st)] else []) @
       (if sf \<and> 0 < autoClose (options st) \<and> \<not> isClosed (suspend (suspend st1))
        then [(''autocloseCalled'', this_session st)] else []) \<and>
     closeCalls st' =
       (if 0 < autoClose (options st) \<and> \<not> isClosed (suspend (suspend st1))
        then Suc (closeCalls (suspend (suspend st1)))
        else closeCalls (suspend (suspend st1)))"
proof -
  from waitForLogin_indeterminate_run [OF assms, of catchQR sf st] obtain st1 where
    scan: "waitForQrCodeScan (scanAnswers env) catchQR (notify ''notLogged'' (started sf st))
       = Some st1"
    and f: "this_session (suspend (suspend st1)) = this_session st"
      "statusFind (suspend (suspend st1)) = sf"
      "options (suspend (suspend st1)) = options st"
    and run: "waitForLogin env catchQR sf st =
       Some (Inl (Reason ''Unknow error''),
         tryAutoClose (notify ''qrReadError'' (suspend (suspend st1))))"
    by blast
  define st2 where "st2 = suspend (suspend st1)"
  define st' where "st' = tryAutoClose (notify ''qrReadError'' st2)"
  have f2: "this_session st2 = this_session st" "statusFind st2 = sf" "options st2 = options st"
    using f by (simp_all add: st2_def)
  have 1: "autoCloseInterval st' = None"
    by (simp add: st'_def)
  have 2: "statusCalls st' =
       statusCalls st2 @ (if sf then [(''qrReadError'', this_session st)] else []) @
       (if sf \<and> 0 < autoClose (options st) \<and> \<not> isClosed st2
        then [(''autocloseCalled'', this_session st)] else [])"
    using f2 by (simp add: st'_def tryAutoClose_effect notify_def)
  have 3: "closeCalls st' =
       (if 0 < autoClose (options st) \<and> \<not> isClosed st2 then Suc (closeCalls st2)
        else closeCalls st2)"
    using f2 by (simp add: st'_def tryAutoClose_effect)
  show ?thesis
    using scan run 1 2 3 unfolding st'_def st2_def by blast
qed

text \<open>
  C4, as the code has it, on a run in which the page asks for no scan and the second
  authentication probe is indeterminate, with \<^verbatim>\<open>autoClose\<close> at 60000 and no interrupt: the
  observer receives \<^verbatim>\<open>notLogged\<close>, \<^verbatim>\<open>qrReadError\<close> and \<^verbatim>\<open>autocloseCalled\<close>,
  \<^verbatim>\<open>page.close()\<close> is called once, the interval is cleared, and \<^verbatim>\<open>Unknow error\<close> is raised.
\<close>

theorem waitForLogin_indeterminate_after_scan_witness:
  "authFirst (quickEnv None) = Some False \<and>
   leavesScan (scanAnswers (quickEnv None)) \<and>
   authAfterScan (quickEnv None) = None \<and>
   map_option (\<lambda>r. (fst r, statusCalls (snd r), closeCalls (snd r), autoCloseInterval (snd r)))
     (waitForLogin (quickEnv None) True True (exampleHost 60000 False []))
     = Some (Inl (Reason ''Unknow error''),
         [(''notLogged'', ''sales''), (''qrReadError'', ''sales''),
          (''autocloseCalled'', ''sales'')],
         1, None)"
  using waitForLogin_indeterminate_after_scan
    [of "quickEnv None" True True "exampleHost 60000 False []"]
  by (simp add: leavesScan_def scanned_def qrAnswer_def host_evals quickEnv_def
      started_def waitForPageLoad_def suspend_def startAutoClose_def notify_def
      waitForQrCodeScan_def tryAutoClose_def cancelAutoClose_def Let_def)

text \<open>
  Claim C4 in its own words does not hold: on that run the reason raised is
  \<^verbatim>\<open>Unknow error\<close>, not \<^verbatim>\<open>Failed to read the QRCode\<close>.
\<close>

theorem waitForLogin_indeterminate_counterexample:
  "map_option fst (waitForLogin (loginEnv (Some False) None) True True (exampleHost 60000 False []))
     = Some (Inl (Reason ''Unknow error'')) \<and>
   map_option fst (waitForLogin (loginEnv (Some False) None) True True (exampleHost 60000 False []))
     \<noteq> Some (Inl (Reason ''Failed to read the QRCode''))"
proof -
  have "authFirst (loginEnv (Some False) None) = Some False"
    "leavesScan (scanAnswers (loginEnv (Some False) None))"
    "authAfterScan (loginEnv (Some False) None) = None"
    by (simp_all add: leavesScan_def scanned_def qrAnswer_def host_evals)
  from waitForLogin_indeterminate_run [OF this, of True True "exampleHost 60000 False []"]
  obtain st1 where "waitForLogin (loginEnv (Some False) None) True True (exampleHost 60000 False [])
      = Some (Inl (Reason ''Unknow error''),
          tryAutoClose (notify ''qrReadError'' (suspend (suspend st1))))"
    by blast
  then show ?thesis by simp
qed

text \<open>
  Claim C9: \<^verbatim>\<open>waitForLogin\<close> never raises \<^verbatim>\<open>Not logged\<close>. When the probe after the scan says
  unauthenticated, the scan branch itself raises \<^verbatim>\<open>Failed to read the QRCode\<close>, and no
  other path reaches the last checks with \<^verbatim>\<open>authenticated === false\<close>.
\<close>

theorem waitForLogin_never_Not_logged:
  "map_option fst (waitForLogin env catchQR sf st) \<noteq> Some (Inl (Reason ''Not logged'')) \<and>
   (authFirst env = Some False \<and> leavesScan (scanAnswers env) \<and> authAfterScan env = Some False
      \<longrightarrow> map_option fst (waitForLogin env catchQR sf st)
            = Some (Inl (Reason ''Failed to read the QRCode'')))"
proof -
  have never: "map_option fst (waitForLogin env catchQR sf st) \<noteq> Some (Inl (Reason ''Not logged''))"
  proof
    assume "map_option fst (waitForLogin env catchQR sf st) = Some (Inl (Reason ''Not logged''))"
    then obtain st' where run:
        "waitForLogin env catchQR sf st = Some (Inl (Reason ''Not logged''), st')"
      by auto
    show False
    proof (cases "loginScan env catchQR (authFirst env) (started sf st)")
      case None
      then show False using run by (simp add: waitForLogin_started)
    next
      case (Some p)
      obtain r st4 where p: "p = (r, st4)" by (cases p)
      show False
      proof (cases r)
        case (Inl e)
        then have "e = Reason ''Failed to read the QRCode''"
          using Some p loginScan_thrown by blast
        then show False using run Some p Inl by (simp add: waitForLogin_started)
      next
        case (Inr a')
        then have a': "a' \<noteq> Some False"
          using Some p loginScan_authenticated by blast
        have "loginFinish env a' st4 = Some (Inl (Reason ''Not logged''), st')"
          using run Some p Inr by (simp add: waitForLogin_started)
        from loginFinish_thrown [OF this] a' show False by auto
      qed
    qed
  qed
  have inside: "map_option fst (waitForLogin env catchQR sf st)
            = Some (Inl (Reason ''Failed to read the QRCode''))"
    if h: "authFirst env = Some False" "leavesScan (scanAnswers env)"
      "authAfterScan env = Some False"
  proof -
    obtain st1 where scan:
        "waitForQrCodeScan (scanAnswers env) catchQR (notify ''notLogged'' (started sf st))
           = Some st1"
      using waitForQrCodeScan_returns [OF h(2)] by blast
    show ?thesis
      using h scan by (simp add: waitForLogin_started loginScan_def Let_def)
  qed
  show ?thesis using never inside by blast
qed

text \<open>C9 on a run whose second authentication probe says unauthenticated.\<close>

theorem waitForLogin_never_Not_logged_witness:
  "authFirst (loginEnv (Some False) (Some False)) = Some False \<and>
   leavesScan (scanAnswers (loginEnv (Some False) (Some False))) \<and>
   authAfterScan (loginEnv (Some False) (Some False)) = Some False \<and>
   map_option fst (waitForLogin (loginEnv (Some False) (Some False)) True True
      (exampleHost 60000 False [])) = Some (Inl (Reason ''Failed to read the QRCode''))"
  using waitForLogin_never_Not_logged [of "loginEnv (Some False) (Some False)" True True "exampleHost 60000 False []"]
  by (simp add: leavesScan_def scanned_def qrAnswer_def host_evals)

subsection \<open>The Auto-Close timer\<close>

text \<open>
  Claim C7. With \<^verbatim>\<open>autoClose\<close> at most 0, \<^verbatim>\<open>startAutoClose\<close> changes nothing, and no run
  of timer calls and interrupts closes the page or reports a status. With \<^verbatim>\<open>autoClose\<close>
  5000, on an idle timer and an open page: after fewer than five ticks nothing has
  happened; from the fifth tick on, \<^verbatim>\<open>page.close()\<close> has been called exactly once, the
  observer (when one is registered) has received \<^verbatim>\<open>autocloseCalled\<close> exactly once, and no
  interval is active any more.
\<close>

theorem autoClose_fires_once:
  "(autoClose (options st) \<le> 0 \<longrightarrow>
      startAutoClose st = st \<and>
      closeCalls (timerRun cs st) = closeCalls st \<and>
      statusCalls (timerRun cs st) = statusCalls st) \<and>
   (autoClose (options st) = 5000 \<and> autoCloseInterval st = None \<and> intervals st = [] \<and>
    \<not> isClosed st \<longrightarrow>
      (n < 5 \<longrightarrow>
         closeCalls ((tick ^^ n) (startAutoClose st)) = closeCalls st \<and>
         statusCalls ((tick ^^ n) (startAutoClose st)) = statusCalls st) \<and>
      (5 \<le> n \<longrightarrow>
         closeCalls ((tick ^^ n) (startAutoClose st)) = Suc (closeCalls st) \<and>
         statusCalls ((tick ^^ n) (startAutoClose st)) =
           statusCalls st @
           (if statusFind st then [(''autocloseCalled'', this_session st)] else []) \<and>
         intervals ((tick ^^ n) (startAutoClose st)) = []))"
proof -
  have off: "startAutoClose st = st \<and> closeCalls (timerRun cs st) = closeCalls st \<and>
      statusCalls (timerRun cs st) = statusCalls st" if "autoClose (options st) \<le> 0"
    using that by (simp add: startAutoClose_disabled timerRun_disabled)
  have on: "(n < 5 \<longrightarrow>
         closeCalls ((tick ^^ n) (startAutoClose st)) = closeCalls st \<and>
         statusCalls ((tick ^^ n) (startAutoClose st)) = statusCalls st) \<and>
      (5 \<le> n \<longrightarrow>
         closeCalls ((tick ^^ n) (startAutoClose st)) = Suc (closeCalls st) \<and>
         statusCalls ((tick ^^ n) (startAutoClose st)) =
           statusCalls st @
           (if statusFind st then [(''autocloseCalled'', this_session st)] else []) \<and>
         intervals ((tick ^^ n) (startAutoClose st)) = [])"
    if h: "autoClose (options st) = 5000" "autoCloseInterval st = None" "intervals st = []"
      "\<not> isClosed st"
  proof -
    have s: "startAutoClose st = counting st 5"
      using h by (simp add: startAutoClose_counting)
    have before: "(tick ^^ n) (counting st 5) = counting st (5 - int n)" if "n < 5"
      using h(4) that by (intro ticks_counting) simp_all
    have after: "(tick ^^ n) (counting st 5) = fired st" if "5 \<le> n"
      using h that by (intro ticks_fire) simp_all
    show ?thesis
      using before after h(3) by (simp add: s counting_def fired_def notify_def)
  qed
  show ?thesis using off on by blast
qed

text \<open>
  C7 on a host layer with \<^verbatim>\<open>autoClose\<close> 0 and on one with \<^verbatim>\<open>autoClose\<close> 5000, after 4, 5
  and 60 ticks.
\<close>

theorem autoClose_fires_once_witness:
  "autoClose (options (exampleHost 0 True [])) \<le> 0 \<and>
   closeCalls (timerRun [Start, Event Tick, TryClose, Event Tick] (exampleHost 0 True [])) = 0 \<and>
   autoClose (options (exampleHost 5000 True [])) = 5000 \<and>
   closeCalls ((tick ^^ 4) (startAutoClose (exampleHost 5000 True []))) = 0 \<and>
   closeCalls ((tick ^^ 5) (startAutoClose (exampleHost 5000 True []))) = 1 \<and>
   statusCalls ((tick ^^ 5) (startAutoClose (exampleHost 5000 True [])))
     = [(''autocloseCalled'', ''sales'')] \<and>
   statusCalls ((tick ^^ 60) (startAutoClose (exampleHost 5000 True [])))
     = [(''autocloseCalled'', ''sales'')]"
  using autoClose_fires_once [of "exampleHost 0 True []" "[Start, Event Tick, TryClose, Event Tick]"]
    autoClose_fires_once [of "exampleHost 5000 True []" _ 4]
    autoClose_fires_once [of "exampleHost 5000 True []" _ 5]
    autoClose_fires_once [of "exampleHost 5000 True []" _ 60]
  by (simp add: host_evals)

text \<open>
  Claim C8. \<^verbatim>\<open>startAutoClose\<close> on a running timer changes nothing. From the constructor
  on, and from any state in which the field and the runtime agree, no run of timer calls
  and interrupts and no \<^verbatim>\<open>waitForLogin\<close> leaves more than one interval active.
  \<^verbatim>\<open>cancelAutoClose\<close> followed by \<^verbatim>\<open>startAutoClose\<close> leaves exactly one interval, counting
  from the full configured duration. \<^verbatim>\<open>cancelAutoClose\<close> on a cancelled timer changes
  nothing, and it has no failing case.
\<close>

theorem autoClose_single_countdown:
  "(autoCloseInterval st \<noteq> None \<longrightarrow> startAutoClose st = st) \<and>
   length (intervals (timerRun cs (newHostLayer d s opts sched))) \<le> 1 \<and>
   (timerConsistent st \<longrightarrow> length (intervals (timerRun cs st)) \<le> 1) \<and>
   (timerConsistent st \<and> waitForLogin env catchQR sf st = Some (r, st')
      \<longrightarrow> length (intervals st') \<le> 1) \<and>
   (timerConsistent st \<and> 0 < autoClose (options st) \<longrightarrow>
      intervals (startAutoClose (cancelAutoClose st)) =
        [(nextInterval st, (autoClose (options st) + 500) div 1000)]) \<and>
   (autoCloseInterval st = None \<longrightarrow> cancelAutoClose st = st) \<and>
   cancelAutoClose (cancelAutoClose st) = cancelAutoClose st"
proof -
  have one: "timerConsistent x \<Longrightarrow> length (intervals (timerRun cs x)) \<le> 1" for x
    by (rule timerConsistent_length [OF timerConsistent_run])
  have new: "length (intervals (timerRun cs (newHostLayer d s opts sched))) \<le> 1"
    by (rule one [OF timerConsistent_new])
  have login: "length (intervals st') \<le> 1"
    if "timerConsistent st" "waitForLogin env catchQR sf st = Some (r, st')"
    by (rule timerConsistent_length [OF waitForLogin_consistent [OF that(2) that(1)]])
  show ?thesis
    using one [of st] new login
    by (simp add: startAutoClose_running cancelAutoClose_idle restart_full)
qed

text \<open>
  C8 on a timer started with 5000 ms that has ticked once: a second start changes nothing,
  and cancel followed by start counts from 5 again.
\<close>

theorem autoClose_single_countdown_witness:
  "autoCloseInterval (startAutoClose (exampleHost 5000 True [])) \<noteq> None \<and>
   startAutoClose (startAutoClose (exampleHost 5000 True []))
     = startAutoClose (exampleHost 5000 True []) \<and>
   timerConsistent (tick (startAutoClose (exampleHost 5000 True []))) \<and>
   intervals (startAutoClose (cancelAutoClose (tick (startAutoClose (exampleHost 5000 True [])))))
     = [(1, 5)] \<and>
   length (intervals (timerRun [Start, Start, Event Tick, Start]
      (tick (startAutoClose (exampleHost 5000 True []))))) \<le> 1"
proof -
  let ?host = "exampleHost 5000 True []"
  have run: "startAutoClose ?host = counting ?host 5"
    by (simp add: startAutoClose_def counting_def host_evals)
  have t: "tick (counting ?host 5) = counting ?host 4"
    using tick_counting [of ?host 5] by (simp add: host_evals)
  have con: "timerConsistent (counting ?host 4)"
    by (simp add: timerConsistent_def counting_def)
  have f: "autoCloseInterval (counting ?host 5) \<noteq> None" "0 < autoClose (options (counting ?host 4))"
    "nextInterval (counting ?host 4) = 1" "autoClose (options (counting ?host 4)) = 5000"
    by (simp_all add: counting_def host_evals)
  show ?thesis
    using autoClose_single_countdown [of "counting ?host 5"] autoClose_single_countdown [of "counting ?host 4" "[Start, Start, Event Tick, Start]"]
      con f
    by (simp add: run t)
qed

end
